theory Spec2Isabelle
  imports Main "HOL-Library.Char_ord" "HOL-Library.List_Lexorder" "HOL-Library.Multiset"
    "HOL-Library.AList"
begin

section \<open>Merge-order engine (toposort.py)\<close>

subsection \<open>Data model\<close>

text \<open>
  An item of the plan, as the engine reads it: \<open>item.get("name")\<close>, \<open>item['repo']\<close>,
  \<open>item['branch']\<close> and \<open>it.get("deps", [])\<close>. An absent (or null) field is \<open>None\<close>.
  The fields have the types the validator establishes before the engine runs: \<open>name\<close> a
  string when present, \<open>repo\<close> and \<open>branch\<close> strings, \<open>deps\<close> a list of strings.
  Python strings are modelled by \<open>string\<close>; \<open>sorted\<close> on them is the lexicographic order
  on characters (\<open>Char_ord\<close>, \<open>List_Lexorder\<close>).
\<close>

record item =
  name :: "string option"
  repo :: string
  branch :: string
  deps :: "string list option"

text \<open>The two exceptions the engine raises, each with its message.\<close>

datatype error = KeyError string | CycleError string

text \<open>
  \<open>_name_of\<close>: \<open>item.get("name")\<close> when it is truthy, otherwise the formatted string
  made of \<open>item['repo']\<close>, the character \<open>@\<close> and \<open>item['branch']\<close>. An empty
  string is falsy in Python.
\<close>

definition name_of :: "item \<Rightarrow> string" where
  "name_of it =
     (case name it of
        Some n \<Rightarrow> if n \<noteq> [] then n else repo it @ ''@'' @ branch it
      | None \<Rightarrow> repo it @ ''@'' @ branch it)"

text \<open>\<open>it.get("deps", []) or []\<close>.\<close>

definition deps_of :: "item \<Rightarrow> string list" where
  "deps_of it = (case deps it of Some ds \<Rightarrow> ds | None \<Rightarrow> [])"

text \<open>
  \<open>in_deg\<close> is a dict: an association list in insertion order, read with \<open>map_of\<close> and
  written with \<open>AList.update\<close> (in place for an existing key, appended for a new one).
  \<open>children\<close> is a \<open>defaultdict(list)\<close> that is only ever indexed and read with
  \<open>.get(n, [])\<close>: a total function whose default is the empty list.
\<close>

type_synonym in_deg = "(string \<times> int) list"
type_synonym children = "string \<Rightarrow> string list"

definition unknown_dep_msg :: "string \<Rightarrow> string \<Rightarrow> string" where
  "unknown_dep_msg d me = ''unknown dep '' @ [CHR 0x27] @ d @ [CHR 0x27] @ '' for item '' @ [CHR 0x27] @ me @ [CHR 0x27]"

subsection \<open>Building the graph\<close>

text \<open>
  The inner loop \<open>for d in it.get("deps", []) or []\<close> of one item \<open>me\<close>. Reading
  \<open>in_deg[me]\<close> at a missing key raises \<open>KeyError\<close> in Python; that branch is kept.
\<close>

fun add_deps :: "string set \<Rightarrow> string \<Rightarrow> string list \<Rightarrow> in_deg \<times> children \<Rightarrow> error + in_deg \<times> children" where
  "add_deps name_set me [] g = Inr g"
| "add_deps name_set me (d # ds) (in_deg, children) =
     (if d \<notin> name_set then Inl (KeyError (unknown_dep_msg d me))
      else case map_of in_deg me of
             None \<Rightarrow> Inl (KeyError me)
           | Some k \<Rightarrow>
               add_deps name_set me ds
                 (AList.update me (k + 1) in_deg, children(d := children d @ [me])))"

text \<open>The outer loop \<open>for it in items\<close>.\<close>

fun build_graph :: "string set \<Rightarrow> item list \<Rightarrow> in_deg \<times> children \<Rightarrow> error + in_deg \<times> children" where
  "build_graph name_set [] g = Inr g"
| "build_graph name_set (it # its) g =
     (case add_deps name_set (name_of it) (deps_of it) g of
        Inl e \<Rightarrow> Inl e
      | Inr g' \<Rightarrow> build_graph name_set its g')"

subsection \<open>Kahn's algorithm by levels\<close>

text \<open>
  \<open>for c in sorted(children.get(n, []))\<close>, on the already sorted list: decrement
  \<open>in_deg[c]\<close> and append \<open>c\<close> to the queue when it reaches zero.
\<close>

fun dec_children :: "string list \<Rightarrow> in_deg \<times> string list \<Rightarrow> error + in_deg \<times> string list" where
  "dec_children [] s = Inr s"
| "dec_children (c # cs) (in_deg, q) =
     (case map_of in_deg c of
        None \<Rightarrow> Inl (KeyError c)
      | Some k \<Rightarrow>
          dec_children cs
            (AList.update c (k - 1) in_deg, if k - 1 = 0 then q @ [c] else q))"

text \<open>\<open>for n in this_level\<close>.\<close>

fun process_level :: "children \<Rightarrow> string list \<Rightarrow> in_deg \<times> string list \<Rightarrow> error + in_deg \<times> string list" where
  "process_level children [] s = Inr s"
| "process_level children (n # ns) s =
     (case dec_children (sort (children n)) s of
        Inl e \<Rightarrow> Inl e
      | Inr s' \<Rightarrow> process_level children ns s')"

text \<open>The names of \<open>in_deg\<close> whose count is still positive.\<close>

definition pos :: "in_deg \<Rightarrow> string set" where
  "pos in_deg = {c. \<exists>k. map_of in_deg c = Some k \<and> 0 < k}"

lemma finite_pos: "finite (pos d)"
proof -
  have "pos d \<subseteq> dom (map_of d)" by (auto simp: pos_def)
  then show ?thesis by (rule finite_subset) (rule finite_dom_map_of)
qed

lemma dec_children_measure:
  "dec_children cs (d, q) = Inr (d', q') \<Longrightarrow>
     card (pos d') + length q' \<le> card (pos d) + length q \<and> length q \<le> length q'"
proof (induction cs arbitrary: d q)
  case Nil
  then show ?case by simp
next
  case (Cons c cs)
  from Cons.prems obtain k where k: "map_of d c = Some k"
    and rest: "dec_children cs (AList.update c (k - 1) d, if k - 1 = 0 then q @ [c] else q) = Inr (d', q')"
    by (auto split: option.splits)
  note ih = Cons.IH [OF rest]
  show ?case
  proof (cases "k - 1 = 0")
    case True
    then have k1: "k = 1" by simp
    have "pos (AList.update c (k - 1) d) = pos d - {c}"
      using k k1 by (auto simp: pos_def update_conv')
    moreover have "c \<in> pos d" using k k1 by (simp add: pos_def)
    ultimately have "Suc (card (pos (AList.update c (k - 1) d))) = card (pos d)"
      using card_Suc_Diff1 [OF finite_pos, of c d] by simp
    with ih True show ?thesis by simp
  next
    case False
    have "pos (AList.update c (k - 1) d) \<subseteq> pos d"
      using k by (auto simp: pos_def update_conv' split: if_splits)
    then have "card (pos (AList.update c (k - 1) d)) \<le> card (pos d)"
      by (rule card_mono [OF finite_pos])
    with ih False show ?thesis by simp
  qed
qed

lemma process_level_measure:
  "process_level ch ns (d, q) = Inr (d', q') \<Longrightarrow>
     card (pos d') + length q' \<le> card (pos d) + length q \<and> length q \<le> length q'"
proof (induction ns arbitrary: d q)
  case Nil
  then show ?case by simp
next
  case (Cons n ns)
  from Cons.prems obtain d1 q1 where a: "dec_children (sort (ch n)) (d, q) = Inr (d1, q1)"
    and b: "process_level ch ns (d1, q1) = Inr (d', q')"
    by (auto split: sum.splits)
  from dec_children_measure [OF a] Cons.IH [OF b] show ?case by linarith
qed

text \<open>
  The \<open>while q:\<close> loop. Each round takes the whole queue, sorted, as the next level,
  clears the queue and refills it while decrementing.
\<close>

function kahn_loop :: "children \<Rightarrow> in_deg \<Rightarrow> string list \<Rightarrow> string list list \<Rightarrow> error + in_deg \<times> string list list" where
  "kahn_loop children in_deg q result =
     (if q = [] then Inr (in_deg, result)
      else
        let this_level = sort q in
        case process_level children this_level (in_deg, []) of
          Inl e \<Rightarrow> Inl e
        | Inr (in_deg', q') \<Rightarrow> kahn_loop children in_deg' q' (result @ [this_level]))"
  by pat_completeness auto
termination
proof (relation "measure (\<lambda>(ch, d, q, r). 2 * card (pos d) + (if q = [] then 0 else 1))", goal_cases)
  case 1
  show ?case by simp
next
  case (2 children in_deg q result this_level x2 in_deg' q')
  from process_level_measure [of children this_level in_deg "[]" in_deg' q'] 2
  have "card (pos in_deg') + length q' \<le> card (pos in_deg)" by simp
  with 2 show ?case by (cases q') auto
qed

text \<open>The function \<open>levels\<close> itself.\<close>

definition levels :: "item list \<Rightarrow> error + string list list" where
  "levels items =
     (let names = map name_of items;
          name_set = set names;
          in_deg0 = fold (\<lambda>n. AList.update n 0) names []
      in case build_graph name_set items (in_deg0, \<lambda>_. []) of
           Inl e \<Rightarrow> Inl e
         | Inr (in_deg, children) \<Rightarrow>
             (let q = sort (map fst (filter (\<lambda>(n, deg). deg = 0) in_deg)) in
              (case kahn_loop children in_deg q [] of
                 Inl e \<Rightarrow> Inl e
               | Inr (in_deg', result) \<Rightarrow>
                   if list_ex (\<lambda>(n, deg). 0 < deg) in_deg'
                   then Inl (CycleError ''dependency cycle detected'')
                   else Inr result)))"

section \<open>Plan validator (plan_schema.py)\<close>

subsection \<open>Documents\<close>

text \<open>
  A plan document is what \<open>json.loads\<close> returns: \<open>None\<close>, a bool, a number, a \<open>str\<close>, a
  \<open>list\<close> or a \<open>dict\<close> with string keys. The validator never looks at the value of a
  number, only at its type. A dict is an association list read with \<open>map_of\<close>; its
  \<open>.items()\<close> are the entries that \<open>map_of\<close> sees (\<open>AList.clearjunk\<close>).
\<close>

datatype json =
    JNull
  | JBool bool
  | JNum int
  | JStr string
  | JList "json list"
  | JDict "(string \<times> json) list"

text \<open>
  The characters \<open>str.strip()\<close> removes (those with \<open>str.isspace()\<close>), among the code
  points below 256 that a \<open>char\<close> holds.
\<close>

definition is_space :: "char \<Rightarrow> bool" where
  "is_space c \<longleftrightarrow> (of_char c :: nat) \<in> {9, 10, 11, 12, 13, 28, 29, 30, 31, 32, 133, 160}"

definition strip :: "string \<Rightarrow> string" where
  "strip s = rev (dropWhile is_space (rev (dropWhile is_space s)))"

text \<open>\<open>str(idx)\<close> of a non-negative integer, as the f-strings format it.\<close>

definition digit :: "nat \<Rightarrow> char" where
  "digit d = ''0123456789'' ! d"

fun str_nat :: "nat \<Rightarrow> string" where
  "str_nat n =
     (if n < 10 then [digit n]
      else str_nat (n div 10) @ [digit (n mod 10)])"

declare str_nat.simps [simp del]

subsection \<open>The checks of \<open>_fallback_validate\<close>\<close>

text \<open>
  \<open>req not in it or not isinstance(it[req], str) or not it[req].strip()\<close>, for a dict
  \<open>it\<close> and a key \<open>req\<close>.
\<close>

definition req_bad :: "(string \<times> json) list \<Rightarrow> string \<Rightarrow> bool" where
  "req_bad it req =
     (case map_of it req of
        None \<Rightarrow> True
      | Some (JStr s) \<Rightarrow> strip s = []
      | Some _ \<Rightarrow> True)"

text \<open>\<open>key in it and not isinstance(it[key], str)\<close>.\<close>

definition str_bad :: "(string \<times> json) list \<Rightarrow> string \<Rightarrow> bool" where
  "str_bad it key =
     (case map_of it key of
        None \<Rightarrow> False
      | Some (JStr s) \<Rightarrow> False
      | Some _ \<Rightarrow> True)"

text \<open>\<open>isinstance(d, str) and d.strip()\<close>, for an element of deps.\<close>

definition dep_ok :: "json \<Rightarrow> bool" where
  "dep_ok d = (case d of JStr s \<Rightarrow> strip s \<noteq> [] | _ \<Rightarrow> False)"

text \<open>
  \<open>"deps" in it\<close> and
  \<open>not isinstance(it["deps"], list) or not all(... for d in it["deps"])\<close>.
\<close>

definition deps_bad :: "(string \<times> json) list \<Rightarrow> bool" where
  "deps_bad it =
     (case map_of it ''deps'' of
        None \<Rightarrow> False
      | Some (JList ds) \<Rightarrow> \<not> list_all dep_ok ds
      | Some _ \<Rightarrow> True)"

text \<open>
  \<open>"env" in g\<close> and \<open>not isinstance(g["env"], dict) or not all(isinstance(k, str) and
  isinstance(v, str) for k, v in g["env"].items())\<close>. The keys of a dict of a JSON
  document are strings.
\<close>

definition is_str :: "json \<Rightarrow> bool" where
  "is_str v = (case v of JStr s \<Rightarrow> True | _ \<Rightarrow> False)"

definition env_bad :: "(string \<times> json) list \<Rightarrow> bool" where
  "env_bad g =
     (case map_of g ''env'' of
        None \<Rightarrow> False
      | Some (JDict e) \<Rightarrow> \<not> list_all (\<lambda>(k, v). is_str v) (AList.clearjunk e)
      | Some _ \<Rightarrow> True)"

text \<open>The error messages, with the index of the item and of the gate formatted in.\<close>

definition item_path :: "nat \<Rightarrow> string" where
  "item_path idx = ''items/'' @ str_nat idx"

definition gate_path :: "nat \<Rightarrow> nat \<Rightarrow> string" where
  "gate_path idx gidx = item_path idx @ ''/gates/'' @ str_nat gidx"

definition dup_msg :: string where
  "dup_msg = ''items: duplicate item names (explicit or derived)''"

text \<open>The body of \<open>for gidx, g in enumerate(it["gates"])\<close>: the first error, if any.\<close>

definition check_gate :: "nat \<Rightarrow> nat \<Rightarrow> json \<Rightarrow> string option" where
  "check_gate idx gidx g =
     (case g of
        JDict gd \<Rightarrow>
          if req_bad gd ''name'' then Some (gate_path idx gidx @ ''/name: required non-empty string'')
          else if req_bad gd ''run'' then Some (gate_path idx gidx @ ''/run: required non-empty string'')
          else if str_bad gd ''cwd'' then Some (gate_path idx gidx @ ''/cwd: expected string'')
          else if env_bad gd then Some (gate_path idx gidx @ ''/env: expected object of string->string'')
          else None
      | _ \<Rightarrow> Some (gate_path idx gidx @ '': expected object''))"

fun check_gates :: "nat \<Rightarrow> nat \<Rightarrow> json list \<Rightarrow> string option" where
  "check_gates idx gidx [] = None"
| "check_gates idx gidx (g # gs) =
     (case check_gate idx gidx g of
        Some e \<Rightarrow> Some e
      | None \<Rightarrow> check_gates idx (Suc gidx) gs)"

text \<open>\<open>if "gates" in it: ...\<close>.\<close>

definition gates_err :: "nat \<Rightarrow> (string \<times> json) list \<Rightarrow> string option" where
  "gates_err idx it =
     (case map_of it ''gates'' of
        None \<Rightarrow> None
      | Some (JList gs) \<Rightarrow> check_gates idx 0 gs
      | Some _ \<Rightarrow> Some (item_path idx @ ''/gates: expected array''))"

text \<open>
  The string in a field that the checks before have found to be a string (\<open>it['repo']\<close>,
  \<open>it['branch']\<close> in the f-string of the derived name).
\<close>

definition the_str :: "json option \<Rightarrow> string" where
  "the_str v = (case v of Some (JStr s) \<Rightarrow> s | _ \<Rightarrow> [])"

text \<open>
  \<open>name = it.get("name") or (repo, "@", branch formatted together)\<close>, evaluated once the
  item has passed its checks: \<open>name\<close> is then absent or a string, and an empty string is
  falsy.
\<close>

definition item_name :: "(string \<times> json) list \<Rightarrow> string" where
  "item_name it =
     (case map_of it ''name'' of
        Some (JStr s) \<Rightarrow>
          if s \<noteq> [] then s
          else the_str (map_of it ''repo'') @ ''@'' @ the_str (map_of it ''branch'')
      | _ \<Rightarrow> the_str (map_of it ''repo'') @ ''@'' @ the_str (map_of it ''branch''))"

text \<open>The body of \<open>for idx, it in enumerate(data["items"])\<close>: the first error, or the name.\<close>

definition check_item :: "nat \<Rightarrow> json \<Rightarrow> string + string" where
  "check_item idx it =
     (case it of
        JDict d \<Rightarrow>
          if req_bad d ''repo'' then Inl (item_path idx @ ''/repo: required non-empty string'')
          else if req_bad d ''branch'' then Inl (item_path idx @ ''/branch: required non-empty string'')
          else if str_bad d ''name'' then Inl (item_path idx @ ''/name: expected string'')
          else if deps_bad d then Inl (item_path idx @ ''/deps: expected array of strings'')
          else (case gates_err idx d of
                  Some e \<Rightarrow> Inl e
                | None \<Rightarrow> Inr (item_name d))
      | _ \<Rightarrow> Inl (item_path idx @ '': expected object''))"

text \<open>The loop over the items, with \<open>item_names\<close> as accumulator.\<close>

fun validate_items :: "nat \<Rightarrow> json list \<Rightarrow> string list \<Rightarrow> string + string list" where
  "validate_items idx [] item_names = Inr item_names"
| "validate_items idx (it # its) item_names =
     (case check_item idx it of
        Inl e \<Rightarrow> Inl e
      | Inr n \<Rightarrow> validate_items (Suc idx) its (item_names @ [n]))"

text \<open>\<open>_fallback_validate\<close>: the pair \<open>(ok, error_message)\<close>.\<close>

definition fallback_validate :: "json \<Rightarrow> bool \<times> string option" where
  "fallback_validate data =
     (case data of
        JDict d \<Rightarrow>
          if req_bad d ''target'' then (False, Some ''target: required non-empty string'')
          else (case map_of d ''items'' of
                  Some (JList its) \<Rightarrow>
                    (case validate_items 0 its [] of
                       Inl e \<Rightarrow> (False, Some e)
                     | Inr item_names \<Rightarrow>
                         if card (set item_names) \<noteq> length item_names
                         then (False, Some dup_msg)
                         else (True, None))
                | _ \<Rightarrow> (False, Some ''items: required array''))
      | _ \<Rightarrow> (False, Some ''<root>: expected object''))"

section \<open>Vocabulary of the properties\<close>

text \<open>The dependency edges \<open>(d, me)\<close> in the order the two nested loops visit them:
  items in list order and, within an item, its deps in list order.\<close>

definition edges :: "item list \<Rightarrow> (string \<times> string) list" where
  "edges items = concat (map (\<lambda>it. map (\<lambda>d. (d, name_of it)) (deps_of it)) items)"

text \<open>The \<open>children\<close> lists the loops build from these edges.\<close>

definition children_of :: "(string \<times> string) list \<Rightarrow> children" where
  "children_of E x = map snd (filter (\<lambda>e. fst e = x) E)"

text \<open>The number of edges into \<open>v\<close> whose source lies in \<open>S\<close>.\<close>

definition inc :: "(string \<times> string) list \<Rightarrow> string set \<Rightarrow> string \<Rightarrow> nat" where
  "inc E S v = length (filter (\<lambda>e. fst e \<in> S \<and> snd e = v) E)"

text \<open>A level list is well formed: each level is sorted and not empty, every dependency of
  a member lies in an earlier level, and a member of a later level has a dependency in the
  level just before.\<close>

definition good_levels :: "(string \<times> string) list \<Rightarrow> string list list \<Rightarrow> bool" where
  "good_levels E lv \<longleftrightarrow>
     (\<forall>i<length lv. sorted (lv ! i) \<and> lv ! i \<noteq> [] \<and>
        (\<forall>v\<in>set (lv ! i).
           (\<forall>u. (u, v) \<in> set E \<longrightarrow> (\<exists>j<i. u \<in> set (lv ! j))) \<and>
           (0 < i \<longrightarrow> (\<exists>u\<in>set (lv ! (i - 1)). (u, v) \<in> set E))))"

text \<open>The invariant of the \<open>while q:\<close> loop, over the names \<open>N\<close> and the edges \<open>E\<close>.\<close>

definition kahn_inv :: "(string \<times> string) list \<Rightarrow> string set \<Rightarrow> in_deg \<Rightarrow> string list \<Rightarrow> string list list \<Rightarrow> bool" where
  "kahn_inv E N deg q result \<longleftrightarrow>
     (\<forall>v. map_of deg v = (if v \<in> N then Some (int (inc E (- set (concat result)) v)) else None)) \<and>
     distinct (map fst deg) \<and>
     distinct q \<and>
     set q = {v \<in> N. v \<notin> set (concat result) \<and> inc E (- set (concat result)) v = 0} \<and>
     distinct (concat result) \<and>
     set (concat result) \<subseteq> N \<and>
     (\<forall>v\<in>set (concat result). inc E (- set (concat result)) v = 0) \<and>
     good_levels E result \<and>
     (result \<noteq> [] \<longrightarrow> (\<forall>v\<in>set q. \<exists>u\<in>set (last result). (u, v) \<in> set E))"

text \<open>The index of the first level that contains a name.\<close>

fun level_index :: "string list list \<Rightarrow> string \<Rightarrow> nat option" where
  "level_index [] v = None"
| "level_index (l # ls) v = (if v \<in> set l then Some 0 else map_option Suc (level_index ls v))"

text \<open>A dependency chain: a non-empty list of names, each one a dependency of the next.\<close>

definition dep_chain :: "(string \<times> string) list \<Rightarrow> string list \<Rightarrow> bool" where
  "dep_chain E xs \<longleftrightarrow> xs \<noteq> [] \<and> successively (\<lambda>u v. (u, v) \<in> set E) xs"

text \<open>The topological depth of \<open>v\<close>: the number of edges of a longest dependency chain
  ending at \<open>v\<close>.\<close>

definition has_depth :: "(string \<times> string) list \<Rightarrow> string \<Rightarrow> nat \<Rightarrow> bool" where
  "has_depth E v i \<longleftrightarrow>
     (\<exists>xs. dep_chain E xs \<and> last xs = v \<and> length xs = Suc i) \<and>
     (\<forall>xs. dep_chain E xs \<and> last xs = v \<longrightarrow> length xs \<le> Suc i)"

text \<open>
  The item lists of the repository's own tests (\<open>test_levels_simple\<close>, \<open>test_cycle\<close>,
  \<open>test_unknown_dep\<close>).
\<close>

definition ex_items :: "item list" where
  "ex_items =
     [\<lparr>name = Some ''A'', repo = ''r'', branch = ''a'', deps = None\<rparr>,
      \<lparr>name = Some ''B'', repo = ''r'', branch = ''b'', deps = Some [''A'']\<rparr>,
      \<lparr>name = Some ''C'', repo = ''r'', branch = ''c'', deps = None\<rparr>]"

definition cyc_items :: "item list" where
  "cyc_items =
     [\<lparr>name = Some ''A'', repo = ''r'', branch = ''a'', deps = Some [''B'']\<rparr>,
      \<lparr>name = Some ''B'', repo = ''r'', branch = ''b'', deps = Some [''A'']\<rparr>]"

definition unk_items :: "item list" where
  "unk_items = [\<lparr>name = Some ''B'', repo = ''r'', branch = ''b'', deps = Some [''X'']\<rparr>]"

text \<open>The resolved name of an item of a document, as the validator computes it.\<close>

definition resolved_name :: "json \<Rightarrow> string" where
  "resolved_name it = (case it of JDict d \<Rightarrow> item_name d | _ \<Rightarrow> [])"

text \<open>
  The resolved name of an item in the words of claim C7: the explicit name when the
  \<open>name\<close> field is present, otherwise repo, \<open>@\<close> and branch.
\<close>

definition claimed_name :: "json \<Rightarrow> string" where
  "claimed_name it =
     (case it of
        JDict d \<Rightarrow>
          (case map_of d ''name'' of
             Some (JStr s) \<Rightarrow> s
           | _ \<Rightarrow>
               (case (map_of d ''repo'', map_of d ''branch'') of
                  (Some (JStr r), Some (JStr b)) \<Rightarrow> r @ ''@'' @ b
                | _ \<Rightarrow> []))
      | _ \<Rightarrow> [])"

text \<open>
  The resolved name as amended: the explicit name when it is a non-empty string, otherwise
  (name absent or empty) repo, \<open>@\<close> and branch.
\<close>

definition amended_name :: "json \<Rightarrow> string" where
  "amended_name it =
     (case it of
        JDict d \<Rightarrow>
          (case (map_of d ''repo'', map_of d ''branch'') of
             (Some (JStr r), Some (JStr b)) \<Rightarrow>
               (case map_of d ''name'' of
                  Some (JStr s) \<Rightarrow> if s = [] then r @ ''@'' @ b else s
                | _ \<Rightarrow> r @ ''@'' @ b)
           | _ \<Rightarrow> [])
      | _ \<Rightarrow> [])"

text \<open>
  Plan documents: the one of \<open>test_invalid_missing_branch\<close>, and small ones with a
  duplicate name, two empty names, an item with neither repo nor branch, and a blank dep.
\<close>

definition plan_missing_branch :: json where
  "plan_missing_branch =
     JDict [(''target'', JStr ''main''),
            (''items'', JList [JDict [(''repo'', JStr ''org/repo''), (''name'', JStr ''A'')]])]"

definition plan_two_items :: json where
  "plan_two_items =
     JDict [(''target'', JStr ''main''),
            (''items'', JList
               [JDict [(''repo'', JStr ''org/repo''), (''branch'', JStr ''feat/a''), (''name'', JStr ''A'')],
                JDict [(''repo'', JStr ''org/repo''), (''branch'', JStr ''feat/b''), (''name'', JStr ''A'')]])]"

definition plan_empty_names :: json where
  "plan_empty_names =
     JDict [(''target'', JStr ''main''),
            (''items'', JList
               [JDict [(''repo'', JStr ''org/repo''), (''branch'', JStr ''feat/a''), (''name'', JStr [])],
                JDict [(''repo'', JStr ''org/repo''), (''branch'', JStr ''feat/b''), (''name'', JStr [])]])]"

definition plan_no_repo_no_branch :: json where
  "plan_no_repo_no_branch =
     JDict [(''target'', JStr ''main''), (''items'', JList [JDict [(''name'', JStr ''A'')]])]"

definition plan_blank_dep :: json where
  "plan_blank_dep =
     JDict [(''target'', JStr ''main''),
            (''items'', JList
               [JDict [(''repo'', JStr ''org/repo''), (''branch'', JStr ''feat/a''),
                       (''deps'', JList [JStr ''A'', JStr '' ''])]])]"

definition plan_blank_dep_no_target :: json where
  "plan_blank_dep_no_target =
     JDict [(''items'', JList
               [JDict [(''repo'', JStr ''org/repo''), (''branch'', JStr ''feat/a''),
                       (''deps'', JList [JStr []])]])]"

section \<open>Lemmas about the engine\<close>

lemma map_of_init: "map_of (fold (\<lambda>n. AList.update n (0::int)) ns al) v =
   (if v \<in> set ns then Some 0 else map_of al v)"
  by (induction ns arbitrary: al) (auto simp: update_conv')

lemma distinct_init: "distinct (map fst al) \<Longrightarrow> distinct (map fst (fold (\<lambda>n. AList.update n (0::int)) ns al))"
  by (induction ns arbitrary: al) (auto simp: distinct_update)

lemma add_deps_ok:
  assumes "set ds \<subseteq> N" "map_of deg me = Some k"
  shows "\<exists>deg'. add_deps N me ds (deg, ch) =
           Inr (deg', \<lambda>x. ch x @ map snd (filter (\<lambda>e. fst e = x) (map (\<lambda>d. (d, me)) ds)))
         \<and> map_of deg' = (map_of deg)(me \<mapsto> k + int (length ds))
         \<and> (distinct (map fst deg) \<longrightarrow> distinct (map fst deg'))"
  using assms
proof (induction ds arbitrary: deg ch k)
  case Nil
  then show ?case by (auto simp: fun_upd_idem)
next
  case (Cons d ds)
  let ?deg1 = "AList.update me (k + 1) deg"
  let ?ch1 = "ch(d := ch d @ [me])"
  have m1: "map_of ?deg1 me = Some (k + 1)" by (simp add: update_conv')
  from Cons.prems have sub: "set ds \<subseteq> N" and dN: "d \<in> N" by auto
  from Cons.IH [OF sub m1, of ?ch1] obtain deg' where
    r: "add_deps N me ds (?deg1, ?ch1) =
        Inr (deg', \<lambda>x. ?ch1 x @ map snd (filter (\<lambda>e. fst e = x) (map (\<lambda>d. (d, me)) ds)))"
    and m: "map_of deg' = (map_of ?deg1)(me \<mapsto> k + 1 + int (length ds))"
    and di: "distinct (map fst ?deg1) \<longrightarrow> distinct (map fst deg')"
    by blast
  have "add_deps N me (d # ds) (deg, ch) = add_deps N me ds (?deg1, ?ch1)"
    using dN Cons.prems(2) by simp
  moreover have "(\<lambda>x. ?ch1 x @ map snd (filter (\<lambda>e. fst e = x) (map (\<lambda>d. (d, me)) ds)))
     = (\<lambda>x. ch x @ map snd (filter (\<lambda>e. fst e = x) (map (\<lambda>d. (d, me)) (d # ds))))"
    by (rule ext) simp
  moreover have "map_of deg' = (map_of deg)(me \<mapsto> k + int (length (d # ds)))"
    using m by (simp add: update_conv' algebra_simps)
  ultimately show ?case using r di by (auto simp: distinct_update)
qed

lemma add_deps_unknown:
  assumes "find (\<lambda>d. d \<notin> N) ds = Some d" "map_of deg me = Some k"
  shows "add_deps N me ds (deg, ch) = Inl (KeyError (unknown_dep_msg d me))"
  using assms
proof (induction ds arbitrary: deg ch k)
  case Nil
  then show ?case by simp
next
  case (Cons x xs)
  show ?case
  proof (cases "x \<in> N")
    case True
    then have f: "find (\<lambda>d. d \<notin> N) xs = Some d" using Cons.prems(1) by simp
    have m1: "map_of (AList.update me (k + 1) deg) me = Some (k + 1)" by (simp add: update_conv')
    from Cons.IH [OF f m1] True Cons.prems(2) show ?thesis by simp
  next
    case False
    then show ?thesis using Cons.prems by simp
  qed
qed

lemma find_app: "find P (xs @ ys) = (case find P xs of None \<Rightarrow> find P ys | Some x \<Rightarrow> Some x)"
  by (induction xs) auto

lemma find_map_edge: "find (\<lambda>e. fst e \<notin> N) (map (\<lambda>d. (d, me)) ds) = map_option (\<lambda>d. (d, me)) (find (\<lambda>d. d \<notin> N) ds)"
  by (induction ds) auto

lemma edges_Cons: "edges (it # its) = map (\<lambda>d. (d, name_of it)) (deps_of it) @ edges its"
  by (simp add: edges_def)

lemma children_of_append: "children_of (E1 @ E2) x = children_of E1 x @ children_of E2 x"
  by (simp add: children_of_def)

lemma build_graph_ok:
  assumes "\<forall>e\<in>set (edges items). fst e \<in> N"
    and "\<forall>it\<in>set items. name_of it \<in> dom (map_of deg)"
  shows "\<exists>deg'. build_graph N items (deg, ch) = Inr (deg', \<lambda>x. ch x @ children_of (edges items) x)
     \<and> (\<forall>v. map_of deg' v =
           map_option (\<lambda>k. k + int (length (filter (\<lambda>e. snd e = v) (edges items)))) (map_of deg v))
     \<and> (distinct (map fst deg) \<longrightarrow> distinct (map fst deg'))"
  using assms
proof (induction items arbitrary: deg ch)
  case Nil
  then show ?case by (simp add: edges_def children_of_def option.map_ident)
next
  case (Cons it its)
  let ?me = "name_of it"
  let ?es = "map (\<lambda>d. (d, ?me)) (deps_of it)"
  from Cons.prems(2) obtain k where k: "map_of deg ?me = Some k" by auto
  have sub: "set (deps_of it) \<subseteq> N"
  proof
    fix x assume "x \<in> set (deps_of it)"
    then have "(x, ?me) \<in> set (edges (it # its))" by (simp add: edges_Cons)
    with Cons.prems(1) show "x \<in> N" by fastforce
  qed
  from add_deps_ok [OF sub k, of ch] obtain deg1 where
    a: "add_deps N ?me (deps_of it) (deg, ch) = Inr (deg1, \<lambda>x. ch x @ map snd (filter (\<lambda>e. fst e = x) ?es))"
    and m1: "map_of deg1 = (map_of deg)(?me \<mapsto> k + int (length (deps_of it)))"
    and d1: "distinct (map fst deg) \<longrightarrow> distinct (map fst deg1)"
    by blast
  have p1: "\<forall>e\<in>set (edges its). fst e \<in> N" using Cons.prems(1) by (simp add: edges_Cons)
  have p2: "\<forall>it\<in>set its. name_of it \<in> dom (map_of deg1)" using Cons.prems(2) m1 by auto
  from Cons.IH [OF p1 p2, of "\<lambda>x. ch x @ map snd (filter (\<lambda>e. fst e = x) ?es)"]
  obtain deg' where
    b: "build_graph N its (deg1, \<lambda>x. ch x @ map snd (filter (\<lambda>e. fst e = x) ?es)) =
          Inr (deg', \<lambda>x. (ch x @ map snd (filter (\<lambda>e. fst e = x) ?es)) @ children_of (edges its) x)"
    and m2: "\<forall>v. map_of deg' v =
           map_option (\<lambda>k. k + int (length (filter (\<lambda>e. snd e = v) (edges its)))) (map_of deg1 v)"
    and d2: "distinct (map fst deg1) \<longrightarrow> distinct (map fst deg')"
    by blast
  have r: "build_graph N (it # its) (deg, ch) = Inr (deg', \<lambda>x. ch x @ children_of (edges (it # its)) x)"
    using a b by (simp add: edges_Cons children_of_append) (simp add: children_of_def)
  have len: "length (filter (\<lambda>e. snd e = v) ?es) = (if v = ?me then length (deps_of it) else 0)" for v
    by (induction "deps_of it") (auto simp: filter_map comp_def)
  have m: "map_of deg' v =
           map_option (\<lambda>k. k + int (length (filter (\<lambda>e. snd e = v) (edges (it # its))))) (map_of deg v)" for v
    using m2 [rule_format, of v] m1 k len [of v] by (auto simp: edges_Cons)
  from r m d1 d2 show ?case by blast
qed

lemma build_graph_unknown:
  assumes "find (\<lambda>e. fst e \<notin> N) (edges items) = Some (d, me)"
    and "\<forall>it\<in>set items. name_of it \<in> dom (map_of deg)"
  shows "build_graph N items (deg, ch) = Inl (KeyError (unknown_dep_msg d me))"
  using assms
proof (induction items arbitrary: deg ch)
  case Nil
  then show ?case by (simp add: edges_def)
next
  case (Cons it its)
  let ?me = "name_of it"
  from Cons.prems(2) obtain k where k: "map_of deg ?me = Some k" by auto
  show ?case
  proof (cases "find (\<lambda>d. d \<notin> N) (deps_of it)")
    case None
    then have sub: "set (deps_of it) \<subseteq> N" by (auto simp: find_None_iff)
    from add_deps_ok [OF sub k, of ch] obtain deg1 ch1 where
      a: "add_deps N ?me (deps_of it) (deg, ch) = Inr (deg1, ch1)"
      and m1: "map_of deg1 = (map_of deg)(?me \<mapsto> k + int (length (deps_of it)))"
      by blast
    have f: "find (\<lambda>e. fst e \<notin> N) (edges its) = Some (d, me)"
      using Cons.prems(1) None by (simp add: edges_Cons find_app find_map_edge)
    have p2: "\<forall>it\<in>set its. name_of it \<in> dom (map_of deg1)" using Cons.prems(2) m1 by auto
    from Cons.IH [OF f p2, of ch1] a show ?thesis by simp
  next
    case (Some x)
    then have "d = x" "me = ?me"
      using Cons.prems(1) by (auto simp: edges_Cons find_app find_map_edge)
    with add_deps_unknown [OF _ k, of N "deps_of it" d ch] Some show ?thesis by simp
  qed
qed

lemma dec_children_append:
  "dec_children (xs @ ys) s = (case dec_children xs s of Inl e \<Rightarrow> Inl e | Inr s' \<Rightarrow> dec_children ys s')"
proof (induction xs arbitrary: s)
  case Nil
  then show ?case by simp
next
  case (Cons x xs)
  obtain d q where s: "s = (d, q)" by (cases s)
  show ?case unfolding s using Cons.IH by (simp split: option.splits)
qed

lemma process_level_concat:
  "process_level ch ns s = dec_children (concat (map (\<lambda>n. sort (ch n)) ns)) s"
proof (induction ns arbitrary: s)
  case Nil
  then show ?case by simp
next
  case (Cons n ns)
  then show ?case by (simp add: dec_children_append split: sum.splits)
qed

lemma dec_children_ok:
  assumes "set cs \<subseteq> dom (map_of d)"
  shows "\<exists>d' zs. dec_children cs (d, q) = Inr (d', q @ zs)
     \<and> (\<forall>v. map_of d' v = map_option (\<lambda>k. k - int (count_list cs v)) (map_of d v))
     \<and> distinct zs
     \<and> set zs = {c. \<exists>k. map_of d c = Some k \<and> 1 \<le> k \<and> k \<le> int (count_list cs c)}
     \<and> (distinct (map fst d) \<longrightarrow> distinct (map fst d'))"
  using assms
proof (induction cs arbitrary: d q)
  case Nil
  then show ?case by (auto simp: option.map_ident)
next
  case (Cons c cs)
  from Cons.prems obtain k where k: "map_of d c = Some k" by auto
  let ?d1 = "AList.update c (k - 1) d"
  let ?q1 = "if k - 1 = 0 then q @ [c] else q"
  have sub: "set cs \<subseteq> dom (map_of ?d1)" using Cons.prems by (auto simp: update_conv')
  from Cons.IH [OF sub, of ?q1] obtain d' zs where
    r: "dec_children cs (?d1, ?q1) = Inr (d', ?q1 @ zs)"
    and m: "\<forall>v. map_of d' v = map_option (\<lambda>k. k - int (count_list cs v)) (map_of ?d1 v)"
    and dz: "distinct zs"
    and sz: "set zs = {x. \<exists>k'. map_of ?d1 x = Some k' \<and> 1 \<le> k' \<and> k' \<le> int (count_list cs x)}"
    and dd: "distinct (map fst ?d1) \<longrightarrow> distinct (map fst d')"
    by blast
  let ?zs = "(if k - 1 = 0 then [c] else []) @ zs"
  have r': "dec_children (c # cs) (d, q) = Inr (d', q @ ?zs)"
    using r k by simp
  have m': "map_of d' v = map_option (\<lambda>k. k - int (count_list (c # cs) v)) (map_of d v)" for v
    using m [rule_format, of v] k by (auto simp: update_conv')
  have cnot: "k - 1 = 0 \<Longrightarrow> c \<notin> set zs"
    unfolding sz by (auto simp: update_conv')
  have dz': "distinct ?zs" using dz cnot by auto
  have sz': "set ?zs = {x. \<exists>k'. map_of d x = Some k' \<and> 1 \<le> k' \<and> k' \<le> int (count_list (c # cs) x)}"
  proof (rule set_eqI)
    fix x
    show "x \<in> set ?zs \<longleftrightarrow> x \<in> {x. \<exists>k'. map_of d x = Some k' \<and> 1 \<le> k' \<and> k' \<le> int (count_list (c # cs) x)}"
    proof (cases "x = c")
      case True
      then show ?thesis unfolding set_append sz using k by (auto simp: update_conv')
    next
      case False
      then show ?thesis unfolding set_append sz by (auto simp: update_conv')
    qed
  qed
  have dd': "distinct (map fst d) \<longrightarrow> distinct (map fst d')"
    using dd by (simp add: distinct_update)
  from r' m' dz' sz' dd' show ?case by blast
qed

lemma inc_union:
  "A \<inter> B = {} \<Longrightarrow> inc E (A \<union> B) v = inc E A v + inc E B v"
  by (induction E) (auto simp: inc_def)

lemma count_children_of:
  "count_list (children_of E n) v = inc E {n} v"
  by (induction E) (auto simp: children_of_def inc_def)

lemma count_list_sort: "count_list (sort xs) v = count_list xs v"
proof -
  have "count (mset (sort xs)) v = count (mset xs) v" by simp
  then show ?thesis by (simp only: count_mset)
qed

lemma count_level_children:
  "distinct ns \<Longrightarrow>
   count_list (concat (map (\<lambda>n. sort (children_of E n)) ns)) v = inc E (set ns) v"
proof (induction ns)
  case Nil
  then show ?case by (simp add: inc_def)
next
  case (Cons n ns)
  have "inc E (set (n # ns)) v = inc E {n} v + inc E (set ns) v"
    using inc_union [of "{n}" "set ns" E v] Cons.prems by simp
  with Cons show ?case by (simp add: count_list_sort count_children_of)
qed

lemma inc_zero_iff: "inc E S v = 0 \<longleftrightarrow> (\<forall>u. (u, v) \<in> set E \<longrightarrow> u \<notin> S)"
  by (induction E) (auto simp: inc_def)

lemma good_levels_snoc:
  assumes g: "good_levels E lv" and s: "sorted l" and ne: "l \<noteq> []"
    and pre: "\<forall>v\<in>set l. \<forall>u. (u, v) \<in> set E \<longrightarrow> u \<in> set (concat lv)"
    and lst: "lv \<noteq> [] \<longrightarrow> (\<forall>v\<in>set l. \<exists>u\<in>set (last lv). (u, v) \<in> set E)"
  shows "good_levels E (lv @ [l])"
  unfolding good_levels_def
proof (intro allI impI)
  fix i assume i: "i < length (lv @ [l])"
  show "sorted ((lv @ [l]) ! i) \<and> (lv @ [l]) ! i \<noteq> [] \<and>
        (\<forall>v\<in>set ((lv @ [l]) ! i).
           (\<forall>u. (u, v) \<in> set E \<longrightarrow> (\<exists>j<i. u \<in> set ((lv @ [l]) ! j))) \<and>
           (0 < i \<longrightarrow> (\<exists>u\<in>set ((lv @ [l]) ! (i - 1)). (u, v) \<in> set E)))"
  proof (cases "i < length lv")
    case True
    from g True have a: "sorted (lv ! i)" "lv ! i \<noteq> []"
      and b: "\<forall>v\<in>set (lv ! i). (\<forall>u. (u, v) \<in> set E \<longrightarrow> (\<exists>j<i. u \<in> set (lv ! j))) \<and>
           (0 < i \<longrightarrow> (\<exists>u\<in>set (lv ! (i - 1)). (u, v) \<in> set E))"
      unfolding good_levels_def by blast+
    have c: "(lv @ [l]) ! j = lv ! j" if "j \<le> i" for j
      using that True by (simp add: nth_append)
    have "\<forall>v\<in>set (lv ! i). (\<forall>u. (u, v) \<in> set E \<longrightarrow> (\<exists>j<i. u \<in> set ((lv @ [l]) ! j))) \<and>
           (0 < i \<longrightarrow> (\<exists>u\<in>set ((lv @ [l]) ! (i - 1)). (u, v) \<in> set E))"
    proof (intro ballI conjI allI impI)
      fix v u assume v: "v \<in> set (lv ! i)" and e: "(u, v) \<in> set E"
      from b v e obtain j where "j < i" "u \<in> set (lv ! j)" by blast
      then show "\<exists>j<i. u \<in> set ((lv @ [l]) ! j)" using c [of j] by auto
    next
      fix v assume v: "v \<in> set (lv ! i)" and i0: "0 < i"
      from b v i0 obtain u where "u \<in> set (lv ! (i - 1))" "(u, v) \<in> set E" by blast
      then show "\<exists>u\<in>set ((lv @ [l]) ! (i - 1)). (u, v) \<in> set E" using c [of "i - 1"] by auto
    qed
    with a c [of i] show ?thesis by simp
  next
    case False
    with i have il: "i = length lv" by simp
    have nl: "(lv @ [l]) ! i = l" using il by simp
    have "\<forall>v\<in>set l. (\<forall>u. (u, v) \<in> set E \<longrightarrow> (\<exists>j<i. u \<in> set ((lv @ [l]) ! j))) \<and>
           (0 < i \<longrightarrow> (\<exists>u\<in>set ((lv @ [l]) ! (i - 1)). (u, v) \<in> set E))"
    proof (intro ballI conjI allI impI)
      fix v u assume v: "v \<in> set l" and e: "(u, v) \<in> set E"
      from pre v e have "u \<in> set (concat lv)" by blast
      then obtain xs where "xs \<in> set lv" "u \<in> set xs" by auto
      then obtain j where "j < length lv" "lv ! j = xs" by (auto simp: in_set_conv_nth)
      with \<open>u \<in> set xs\<close> il show "\<exists>j<i. u \<in> set ((lv @ [l]) ! j)"
        by (auto simp: nth_append intro!: exI [of _ j])
    next
      fix v assume v: "v \<in> set l" and i0: "0 < i"
      from i0 il have lvne: "lv \<noteq> []" by auto
      with lst v obtain u where u: "u \<in> set (last lv)" "(u, v) \<in> set E" by blast
      have "(lv @ [l]) ! (i - 1) = last lv"
        using lvne il by (simp add: nth_append last_conv_nth)
      with u show "\<exists>u\<in>set ((lv @ [l]) ! (i - 1)). (u, v) \<in> set E" by auto
    qed
    with nl s ne show ?thesis by simp
  qed
qed

lemma kahn_step:
  assumes wf: "\<forall>e\<in>set E. fst e \<in> N \<and> snd e \<in> N"
    and inv: "kahn_inv E N deg q result"
    and ne: "q \<noteq> []"
  shows "\<exists>deg' q'. process_level (children_of E) (sort q) (deg, []) = Inr (deg', q')
           \<and> kahn_inv E N deg' q' (result @ [sort q])"
proof -
  let ?D = "set (concat result)"
  let ?D' = "set (concat (result @ [sort q]))"
  let ?cs = "concat (map (\<lambda>n. sort (children_of E n)) (sort q))"
  from inv have
    m: "\<And>v. map_of deg v = (if v \<in> N then Some (int (inc E (- ?D) v)) else None)"
    and dk: "distinct (map fst deg)"
    and dq: "distinct q"
    and sq: "set q = {v \<in> N. v \<notin> ?D \<and> inc E (- ?D) v = 0}"
    and dr: "distinct (concat result)"
    and DN: "?D \<subseteq> N"
    and Dz: "\<forall>v\<in>?D. inc E (- ?D) v = 0"
    and gl: "good_levels E result"
    and lst: "result \<noteq> [] \<longrightarrow> (\<forall>v\<in>set q. \<exists>u\<in>set (last result). (u, v) \<in> set E)"
    unfolding kahn_inv_def by simp_all
  have D': "?D' = ?D \<union> set q" by simp
  have disj: "?D \<inter> set q = {}" using sq by auto
  have cnt: "count_list ?cs v = inc E (set q) v" for v
    using count_level_children [of "sort q" E v] dq by simp
  have split: "inc E (- ?D) v = inc E (- ?D') v + inc E (set q) v" for v
  proof -
    have "(- ?D') \<inter> set q = {}" unfolding D' by auto
    from inc_union [OF this, of E v] have "inc E (- ?D' \<union> set q) v = inc E (- ?D') v + inc E (set q) v" .
    moreover have "- ?D' \<union> set q = - ?D" unfolding D' using disj by auto
    ultimately show ?thesis by simp
  qed
  have sub: "set ?cs \<subseteq> dom (map_of deg)"
  proof
    fix c assume "c \<in> set ?cs"
    then obtain n where "c \<in> set (children_of E n)" by auto
    then obtain e where "e \<in> set E" "snd e = c" by (auto simp: children_of_def)
    with wf have "c \<in> N" by auto
    with m [of c] show "c \<in> dom (map_of deg)" by auto
  qed
  from dec_children_ok [OF sub, of "[]"] obtain deg' zs where
    r: "dec_children ?cs (deg, []) = Inr (deg', zs)"
    and m': "\<And>v. map_of deg' v = map_option (\<lambda>k. k - int (count_list ?cs v)) (map_of deg v)"
    and dz: "distinct zs"
    and sz: "set zs = {c. \<exists>k. map_of deg c = Some k \<and> 1 \<le> k \<and> k \<le> int (count_list ?cs c)}"
    and dk': "distinct (map fst deg')"
    using dk by auto
  have r': "process_level (children_of E) (sort q) (deg, []) = Inr (deg', zs)"
    using r by (simp add: process_level_concat)
  have i1: "map_of deg' v = (if v \<in> N then Some (int (inc E (- ?D') v)) else None)" for v
    using m' [of v] m [of v] cnt [of v] split [of v] by simp
  have sz2: "set zs = {c \<in> N. 1 \<le> inc E (- ?D) c \<and> inc E (- ?D') c = 0}"
    unfolding sz using m cnt split by (auto split: if_splits)
  have i4: "set zs = {v \<in> N. v \<notin> ?D' \<and> inc E (- ?D') v = 0}"
  proof (rule set_eqI)
    fix v
    show "v \<in> set zs \<longleftrightarrow> v \<in> {v \<in> N. v \<notin> ?D' \<and> inc E (- ?D') v = 0}"
    proof
      assume "v \<in> set zs"
      with sz2 have vN: "v \<in> N" and p: "1 \<le> inc E (- ?D) v" and z: "inc E (- ?D') v = 0" by auto
      from p Dz have "v \<notin> ?D" by auto
      moreover from p sq have "v \<notin> set q" by auto
      ultimately show "v \<in> {v \<in> N. v \<notin> ?D' \<and> inc E (- ?D') v = 0}" using vN z D' by auto
    next
      assume "v \<in> {v \<in> N. v \<notin> ?D' \<and> inc E (- ?D') v = 0}"
      then have vN: "v \<in> N" and nD: "v \<notin> ?D" and nq: "v \<notin> set q" and z: "inc E (- ?D') v = 0"
        unfolding D' by auto
      from vN nD nq sq have "inc E (- ?D) v \<noteq> 0" by auto
      with vN z sz2 show "v \<in> set zs" by auto
    qed
  qed
  have i5: "distinct (concat (result @ [sort q]))"
    using dr dq disj by auto
  have i6: "?D' \<subseteq> N" using DN sq by auto
  have i7: "\<forall>v\<in>?D'. inc E (- ?D') v = 0"
  proof
    fix v assume "v \<in> ?D'"
    then have "inc E (- ?D) v = 0" using Dz sq unfolding D' by auto
    with split [of v] show "inc E (- ?D') v = 0" by simp
  qed
  have pre: "\<forall>v\<in>set (sort q). \<forall>u. (u, v) \<in> set E \<longrightarrow> u \<in> set (concat result)"
  proof (intro ballI allI impI)
    fix v u assume "v \<in> set (sort q)" and e: "(u, v) \<in> set E"
    then have "inc E (- ?D) v = 0" using sq by auto
    with e show "u \<in> set (concat result)" by (auto simp: inc_zero_iff)
  qed
  have sne: "sort q \<noteq> []"
  proof
    assume "sort q = []"
    then have "set (sort q) = {}" by simp
    with ne show False by simp
  qed
  have lst': "result \<noteq> [] \<longrightarrow> (\<forall>v\<in>set (sort q). \<exists>u\<in>set (last result). (u, v) \<in> set E)"
    using lst by simp
  have i8: "good_levels E (result @ [sort q])"
    by (rule good_levels_snoc [OF gl sorted_sort sne pre lst'])
  have i9: "\<forall>v\<in>set zs. \<exists>u\<in>set (last (result @ [sort q])). (u, v) \<in> set E"
  proof
    fix v assume "v \<in> set zs"
    with sz2 have "1 \<le> inc E (- ?D) v" "inc E (- ?D') v = 0" by auto
    with split [of v] have "inc E (set q) v \<noteq> 0" by simp
    then obtain u where "(u, v) \<in> set E" "u \<in> set q" by (auto simp: inc_zero_iff)
    then show "\<exists>u\<in>set (last (result @ [sort q])). (u, v) \<in> set E" by auto
  qed
  have "kahn_inv E N deg' zs (result @ [sort q])"
    unfolding kahn_inv_def using i1 dk' dz i4 i5 i6 i7 i8 i9 by blast
  with r' show ?thesis by blast
qed

lemma kahn_loop_inv:
  assumes wf: "\<forall>e\<in>set E. fst e \<in> N \<and> snd e \<in> N"
  shows "kahn_inv E N deg q result \<Longrightarrow>
    \<exists>deg' lv. kahn_loop (children_of E) deg q result = Inr (deg', lv) \<and> kahn_inv E N deg' [] lv"
proof (induction "children_of E" deg q result rule: kahn_loop.induct)
  case (1 deg q result)
  show ?case
  proof (cases "q = []")
    case True
    with 1 show ?thesis by simp
  next
    case False
    from kahn_step [OF wf "1.prems" False] obtain deg' q' where
      p: "process_level (children_of E) (sort q) (deg, []) = Inr (deg', q')"
      and i: "kahn_inv E N deg' q' (result @ [sort q])" by blast
    from "1.hyps" [OF False refl p refl i] obtain deg'' lv where
      "kahn_loop (children_of E) deg' q' (result @ [sort q]) = Inr (deg'', lv)"
      "kahn_inv E N deg'' [] lv" by blast
    with False p show ?thesis by (subst kahn_loop.simps) simp
  qed
qed

lemma edges_snd: "e \<in> set (edges items) \<Longrightarrow> snd e \<in> set (map name_of items)"
  by (auto simp: edges_def)

lemma set_zero_keys:
  assumes "distinct (map fst al)"
  shows "set (map fst (filter (\<lambda>(n, k). k = (0::int)) al)) = {v. map_of al v = Some 0}"
  using assms by (auto simp: image_iff)

lemma list_ex_pos:
  assumes "distinct (map fst al)"
  shows "list_ex (\<lambda>(n, k). (0::int) < k) al \<longleftrightarrow> (\<exists>v k. map_of al v = Some k \<and> 0 < k)"
  using assms by (auto simp: list_ex_iff)

lemma levels_core:
  assumes known: "\<forall>e\<in>set (edges items). fst e \<in> set (map name_of items)"
  shows "\<exists>lv. distinct (concat lv) \<and> set (concat lv) \<subseteq> set (map name_of items)
     \<and> good_levels (edges items) lv
     \<and> (\<forall>v\<in>set (map name_of items) - set (concat lv).
           \<exists>u\<in>set (map name_of items) - set (concat lv). (u, v) \<in> set (edges items))
     \<and> levels items = (if set (map name_of items) \<subseteq> set (concat lv) then Inr lv
                        else Inl (CycleError ''dependency cycle detected''))"
proof -
  let ?names = "map name_of items"
  let ?N = "set ?names"
  let ?E = "edges items"
  let ?deg0 = "fold (\<lambda>n. AList.update n (0::int)) ?names []"
  have wf: "\<forall>e\<in>set ?E. fst e \<in> ?N \<and> snd e \<in> ?N"
    using known edges_snd by blast
  have m0: "map_of ?deg0 v = (if v \<in> ?N then Some 0 else None)" for v
    by (simp add: map_of_init)
  have d0: "distinct (map fst ?deg0)" by (rule distinct_init) simp
  have keys: "\<forall>it\<in>set items. name_of it \<in> dom (map_of ?deg0)"
    using m0 by (auto simp: dom_def)
  from build_graph_ok [OF known keys, of "\<lambda>_. []"] d0 obtain deg where
    b: "build_graph ?N items (?deg0, \<lambda>_. []) = Inr (deg, \<lambda>x. [] @ children_of ?E x)"
    and m: "\<And>v. map_of deg v =
           map_option (\<lambda>k. k + int (length (filter (\<lambda>e. snd e = v) ?E))) (map_of ?deg0 v)"
    and dk: "distinct (map fst deg)"
    by blast
  have b': "build_graph ?N items (?deg0, \<lambda>_. []) = Inr (deg, children_of ?E)"
    using b by simp
  let ?q = "sort (map fst (filter (\<lambda>(n, k). k = 0) deg))"
  have m1: "map_of deg v = (if v \<in> ?N then Some (int (inc ?E (- set (concat [])) v)) else None)" for v
    using m [of v] m0 [of v] by (simp add: inc_def)
  have dq: "distinct ?q" using dk by (simp add: distinct_map_filter)
  have sq: "set ?q = {v \<in> ?N. v \<notin> set (concat []) \<and> inc ?E (- set (concat [])) v = 0}"
    using set_zero_keys [OF dk] m1 by (auto split: if_splits)
  have "kahn_inv ?E ?N deg ?q []"
    unfolding kahn_inv_def using m1 dk dq sq by (simp add: good_levels_def)
  from kahn_loop_inv [OF wf this] obtain deg' lv where
    l: "kahn_loop (children_of ?E) deg ?q [] = Inr (deg', lv)"
    and inv: "kahn_inv ?E ?N deg' [] lv" by blast
  let ?D = "set (concat lv)"
  from inv have
    m': "\<And>v. map_of deg' v = (if v \<in> ?N then Some (int (inc ?E (- ?D) v)) else None)"
    and dk': "distinct (map fst deg')"
    and stuck: "{v \<in> ?N. v \<notin> ?D \<and> inc ?E (- ?D) v = 0} = {}"
    and dr: "distinct (concat lv)"
    and DN: "?D \<subseteq> ?N"
    and Dz: "\<forall>v\<in>?D. inc ?E (- ?D) v = 0"
    and gl: "good_levels ?E lv"
    unfolding kahn_inv_def by simp_all
  have ex: "list_ex (\<lambda>(n, k). 0 < k) deg' \<longleftrightarrow> \<not> ?N \<subseteq> ?D"
  proof
    assume "list_ex (\<lambda>(n, k). 0 < k) deg'"
    then obtain v k where "map_of deg' v = Some k" "0 < k"
      using list_ex_pos [OF dk'] by blast
    with m' [of v] have "v \<in> ?N" "inc ?E (- ?D) v \<noteq> 0" by (auto split: if_splits)
    with Dz show "\<not> ?N \<subseteq> ?D" by auto
  next
    assume "\<not> ?N \<subseteq> ?D"
    then obtain v where v: "v \<in> ?N" "v \<notin> ?D" by auto
    with stuck have "inc ?E (- ?D) v \<noteq> 0" by auto
    with m' [of v] v have "map_of deg' v = Some (int (inc ?E (- ?D) v))" "0 < int (inc ?E (- ?D) v)"
      by auto
    then show "list_ex (\<lambda>(n, k). 0 < k) deg'" using list_ex_pos [OF dk'] by blast
  qed
  have st: "\<forall>v\<in>?N - ?D. \<exists>u\<in>?N - ?D. (u, v) \<in> set ?E"
  proof
    fix v assume "v \<in> ?N - ?D"
    with stuck have "inc ?E (- ?D) v \<noteq> 0" by auto
    then obtain u where u: "(u, v) \<in> set ?E" "u \<notin> ?D" by (auto simp: inc_zero_iff)
    with wf have "u \<in> ?N" by fastforce
    with u show "\<exists>u\<in>?N - ?D. (u, v) \<in> set ?E" by auto
  qed
  have "levels items = (if ?N \<subseteq> ?D then Inr lv else Inl (CycleError ''dependency cycle detected''))"
    unfolding levels_def Let_def using b' l ex by simp
  with dr DN gl st show ?thesis by blast
qed

lemma levels_unknown:
  assumes "find (\<lambda>e. fst e \<notin> set (map name_of items)) (edges items) = Some (d, me)"
  shows "levels items = Inl (KeyError (unknown_dep_msg d me))"
proof -
  let ?names = "map name_of items"
  let ?deg0 = "fold (\<lambda>n. AList.update n (0::int)) ?names []"
  have "map_of ?deg0 v = (if v \<in> set ?names then Some 0 else None)" for v
    by (simp add: map_of_init)
  then have keys: "\<forall>it\<in>set items. name_of it \<in> dom (map_of ?deg0)"
    by (auto simp: dom_def)
  from build_graph_unknown [OF assms keys, of "\<lambda>_. []"] show ?thesis
    unfolding levels_def Let_def by simp
qed

lemma in_concat_nth: "v \<in> set (concat lv) \<longleftrightarrow> (\<exists>i<length lv. v \<in> set (lv ! i))"
proof
  assume "v \<in> set (concat lv)"
  then obtain xs where xs: "xs \<in> set lv" "v \<in> set xs" by auto
  from xs(1) obtain i where "i < length lv" "lv ! i = xs" by (auto simp: in_set_conv_nth)
  with xs(2) show "\<exists>i<length lv. v \<in> set (lv ! i)" by blast
next
  assume "\<exists>i<length lv. v \<in> set (lv ! i)"
  then obtain i where "i < length lv" "v \<in> set (lv ! i)" by blast
  then show "v \<in> set (concat lv)" using nth_mem [of i lv] by auto
qed

lemma level_index_unique:
  "distinct (concat lv) \<Longrightarrow> i < length lv \<Longrightarrow> v \<in> set (lv ! i) \<Longrightarrow> level_index lv v = Some i"
proof (induction lv arbitrary: i)
  case Nil
  then show ?case by simp
next
  case (Cons l ls)
  show ?case
  proof (cases i)
    case 0
    with Cons.prems show ?thesis by simp
  next
    case (Suc k)
    with Cons.prems have k: "k < length ls" "v \<in> set (ls ! k)" by auto
    then have "v \<in> set (concat ls)" unfolding in_concat_nth by blast
    with Cons.prems(1) have "v \<notin> set l" by auto
    moreover from Cons.IH [OF _ k] Cons.prems(1) have "level_index ls v = Some k" by simp
    ultimately show ?thesis using Suc by simp
  qed
qed

lemma levels_Inr_facts:
  assumes "levels items = Inr lv"
  shows "(\<forall>e\<in>set (edges items). fst e \<in> set (map name_of items))
    \<and> distinct (concat lv) \<and> set (concat lv) = set (map name_of items)
    \<and> good_levels (edges items) lv"
proof -
  have known: "\<forall>e\<in>set (edges items). fst e \<in> set (map name_of items)"
  proof (cases "find (\<lambda>e. fst e \<notin> set (map name_of items)) (edges items)")
    case None
    then show ?thesis by (simp only: find_None_iff) blast
  next
    case (Some e)
    obtain d me where "e = (d, me)" by (cases e)
    with Some levels_unknown [of items d me] assms show ?thesis by simp
  qed
  from levels_core [OF known] obtain lv' where
    a: "distinct (concat lv')" "set (concat lv') \<subseteq> set (map name_of items)"
       "good_levels (edges items) lv'"
    and l: "levels items = (if set (map name_of items) \<subseteq> set (concat lv') then Inr lv'
                        else Inl (CycleError ''dependency cycle detected''))"
    by blast
  from l assms have "set (map name_of items) \<subseteq> set (concat lv')" "lv' = lv"
    by (auto split: if_splits)
  with a known show ?thesis by blast
qed

lemma good_levels_edge:
  assumes "good_levels E lv" "i < length lv" "v \<in> set (lv ! i)" "(u, v) \<in> set E"
  shows "\<exists>j<i. u \<in> set (lv ! j)"
  using assms unfolding good_levels_def by blast

lemma good_levels_wf:
  assumes g: "good_levels E lv" and d: "distinct (concat lv)"
    and cov: "\<forall>e\<in>set E. snd e \<in> set (concat lv)"
  shows "wf (set E)"
proof -
  let ?f = "\<lambda>v. the (level_index lv v)"
  have "set E \<subseteq> measure ?f"
  proof
    fix e assume e: "e \<in> set E"
    obtain u v where uv: "e = (u, v)" by (cases e)
    from cov e uv have "v \<in> set (concat lv)" by fastforce
    then obtain i where i: "i < length lv" "v \<in> set (lv ! i)"
      unfolding in_concat_nth by blast
    from good_levels_edge [OF g i] e uv obtain j where j: "j < i" "u \<in> set (lv ! j)" by blast
    from level_index_unique [OF d i] level_index_unique [OF d _ j(2)] j(1) i(1)
    show "e \<in> measure ?f" unfolding uv by simp
  qed
  then show ?thesis by (rule wf_subset [OF wf_measure])
qed

lemma stuck_not_wf:
  assumes "wf R" "v \<in> S" "\<forall>v\<in>S. \<exists>u\<in>S. (u, v) \<in> R"
  shows False
proof -
  from wfE_min [OF assms(1,2)] obtain z where "z \<in> S" "\<And>y. (y, z) \<in> R \<Longrightarrow> y \<notin> S" by blast
  with assms(3) show False by blast
qed

lemma levels_total:
  assumes known: "\<forall>e\<in>set (edges items). fst e \<in> set (map name_of items)"
    and w: "wf (set (edges items))"
  shows "\<exists>lv. levels items = Inr lv"
proof -
  from levels_core [OF known] obtain lv where
    st: "\<forall>v\<in>set (map name_of items) - set (concat lv).
           \<exists>u\<in>set (map name_of items) - set (concat lv). (u, v) \<in> set (edges items)"
    and l: "levels items = (if set (map name_of items) \<subseteq> set (concat lv) then Inr lv
                        else Inl (CycleError ''dependency cycle detected''))"
    by blast
  have "set (map name_of items) \<subseteq> set (concat lv)"
  proof (rule ccontr)
    assume "\<not> set (map name_of items) \<subseteq> set (concat lv)"
    then obtain v where "v \<in> set (map name_of items) - set (concat lv)" by blast
    from stuck_not_wf [OF w this st] show False .
  qed
  with l show ?thesis by simp
qed

lemma levels_cycle:
  assumes known: "\<forall>e\<in>set (edges items). fst e \<in> set (map name_of items)"
    and c: "\<not> wf (set (edges items))"
  shows "levels items = Inl (CycleError ''dependency cycle detected'')"
proof -
  from levels_core [OF known] obtain lv where
    a: "distinct (concat lv)" "good_levels (edges items) lv"
    and l: "levels items = (if set (map name_of items) \<subseteq> set (concat lv) then Inr lv
                        else Inl (CycleError ''dependency cycle detected''))"
    by blast
  have "\<not> set (map name_of items) \<subseteq> set (concat lv)"
  proof
    assume sub: "set (map name_of items) \<subseteq> set (concat lv)"
    have "\<forall>e\<in>set (edges items). snd e \<in> set (concat lv)"
      using edges_snd sub by blast
    from good_levels_wf [OF a(2) a(1) this] c show False by simp
  qed
  with l show ?thesis by simp
qed

lemma levels_ex_items: "levels ex_items = Inr [[''A'', ''C''], [''B'']]"
  by (simp add: levels_def ex_items_def name_of_def deps_of_def)

lemma edges_set:
  "set (edges items) = {(d, name_of it) | it d. it \<in> set items \<and> d \<in> set (deps_of it)}"
  by (auto simp: edges_def)

lemma known_iff:
  "(\<forall>e\<in>set (edges items). fst e \<in> N) \<longleftrightarrow> (\<forall>it\<in>set items. set (deps_of it) \<subseteq> N)"
  unfolding edges_set by fastforce

lemma edges_append: "edges (xs @ ys) = edges xs @ edges ys"
  by (simp add: edges_def)

lemma find_first_unknown:
  assumes pre: "\<forall>p\<in>set pre. set (deps_of p) \<subseteq> N" and ds1: "set ds1 \<subseteq> N" and x: "x \<notin> N"
    and d: "deps_of me = ds1 @ x # ds2"
  shows "find (\<lambda>e. fst e \<notin> N) (edges (pre @ me # post)) = Some (x, name_of me)"
proof -
  have a: "find (\<lambda>e. fst e \<notin> N) (edges pre) = None"
    using pre unfolding find_None_iff known_iff [symmetric] by blast
  have b: "find (\<lambda>d. d \<notin> N) ds1 = None" using ds1 unfolding find_None_iff by blast
  have c: "find (\<lambda>d. d \<notin> N) (deps_of me) = Some x"
    unfolding d using b x by (simp add: find_app)
  show ?thesis
    using a c by (simp add: edges_append edges_Cons find_app find_map_edge)
qed

lemma dep_chain_single: "dep_chain E [v]"
  by (simp add: dep_chain_def)

lemma dep_chain_snoc:
  "dep_chain E (xs @ [v]) \<longleftrightarrow> xs = [] \<or> (dep_chain E xs \<and> (last xs, v) \<in> set E)"
  by (auto simp: dep_chain_def successively_append_iff)

lemma good_levels_chain_exists:
  "good_levels E lv \<Longrightarrow> i < length lv \<Longrightarrow> v \<in> set (lv ! i) \<Longrightarrow>
     \<exists>xs. dep_chain E xs \<and> last xs = v \<and> length xs = Suc i"
proof (induction i arbitrary: v)
  case 0
  have "dep_chain E [v] \<and> last [v] = v \<and> length [v] = Suc 0" by (simp add: dep_chain_single)
  then show ?case by blast
next
  case (Suc i)
  from Suc.prems obtain u where u: "u \<in> set (lv ! i)" "(u, v) \<in> set E"
    unfolding good_levels_def by fastforce
  from Suc.prems(2) have "i < length lv" by simp
  from Suc.IH [OF Suc.prems(1) this u(1)] obtain xs where
    xs: "dep_chain E xs" "last xs = u" "length xs = Suc i" by blast
  then have "dep_chain E (xs @ [v]) \<and> last (xs @ [v]) = v \<and> length (xs @ [v]) = Suc (Suc i)"
    using u(2) by (simp add: dep_chain_snoc)
  then show ?case by blast
qed

lemma good_levels_chain_bound:
  "good_levels E lv \<Longrightarrow> i < length lv \<Longrightarrow> v \<in> set (lv ! i) \<Longrightarrow>
     dep_chain E xs \<Longrightarrow> last xs = v \<Longrightarrow> length xs \<le> Suc i"
proof (induction xs arbitrary: i v rule: rev_induct)
  case Nil
  then show ?case by (simp add: dep_chain_def)
next
  case (snoc x ys)
  show ?case
  proof (cases "ys = []")
    case True
    then show ?thesis by simp
  next
    case False
    from snoc.prems(5) have xv: "x = v" by simp
    from snoc.prems(4) False xv have c: "dep_chain E ys" and e: "(last ys, v) \<in> set E"
      by (simp_all add: dep_chain_snoc)
    from good_levels_edge [OF snoc.prems(1,2,3) e] obtain j where
      j: "j < i" "last ys \<in> set (lv ! j)" by blast
    from j(1) snoc.prems(2) have "j < length lv" by simp
    from snoc.IH [OF snoc.prems(1) this j(2) c refl] j(1) show ?thesis by simp
  qed
qed

lemma good_levels_has_depth:
  "good_levels E lv \<Longrightarrow> i < length lv \<Longrightarrow> v \<in> set (lv ! i) \<Longrightarrow> has_depth E v i"
  unfolding has_depth_def
  using good_levels_chain_exists good_levels_chain_bound by blast

lemma has_depth_unique: "has_depth E v i \<Longrightarrow> has_depth E v j \<Longrightarrow> i = j"
  unfolding has_depth_def by (metis Suc_le_mono le_antisym)

lemma has_depth_cong: "set E = set E' \<Longrightarrow> has_depth E v i = has_depth E' v i"
  by (simp add: has_depth_def dep_chain_def)

lemma good_levels_cong: "set E = set E' \<Longrightarrow> good_levels E lv = good_levels E' lv"
  by (simp add: good_levels_def)

lemma level_iff_depth:
  assumes g: "good_levels E lv" and c: "set (concat lv) = N"
  shows "(i < length lv \<and> v \<in> set (lv ! i)) \<longleftrightarrow> (v \<in> N \<and> has_depth E v i)"
proof
  assume a: "i < length lv \<and> v \<in> set (lv ! i)"
  then have "v \<in> set (concat lv)" unfolding in_concat_nth by blast
  with a c good_levels_has_depth [OF g] show "v \<in> N \<and> has_depth E v i" by blast
next
  assume a: "v \<in> N \<and> has_depth E v i"
  with c have "v \<in> set (concat lv)" by simp
  then obtain j where j: "j < length lv" "v \<in> set (lv ! j)" unfolding in_concat_nth by blast
  from good_levels_has_depth [OF g j] a have "i = j" using has_depth_unique by blast
  with j show "i < length lv \<and> v \<in> set (lv ! i)" by simp
qed

lemma distinct_concat_nth: "distinct (concat lv) \<Longrightarrow> i < length lv \<Longrightarrow> distinct (lv ! i)"
  by (induction lv arbitrary: i) (auto simp: nth_Cons split: nat.splits)

lemma good_levels_length_le:
  assumes g: "good_levels E lv" and g': "good_levels E lv'"
    and c: "set (concat lv) = N" and c': "set (concat lv') = N"
  shows "length lv' \<le> length lv"
proof (rule ccontr)
  assume "\<not> length lv' \<le> length lv"
  then have i: "length lv < length lv'" by simp
  from g' i have "lv' ! length lv \<noteq> []" unfolding good_levels_def by blast
  then obtain v where v: "v \<in> set (lv' ! length lv)" by (cases "lv' ! length lv") auto
  from level_iff_depth [OF g' c', of "length lv" v] i v
  have "v \<in> N" "has_depth E v (length lv)" by blast+
  with level_iff_depth [OF g c, of "length lv" v] show False by simp
qed

lemma good_levels_unique:
  assumes g: "good_levels E lv" and g': "good_levels E lv'"
    and c: "set (concat lv) = N" and c': "set (concat lv') = N"
    and d: "distinct (concat lv)" and d': "distinct (concat lv')"
  shows "lv = lv'"
proof (rule nth_equalityI)
  show len: "length lv = length lv'"
    using good_levels_length_le [OF g g' c c'] good_levels_length_le [OF g' g c' c] by simp
  fix i assume i: "i < length lv"
  with len have i': "i < length lv'" by simp
  have "set (lv ! i) = set (lv' ! i)"
    using level_iff_depth [OF g c, of i] level_iff_depth [OF g' c', of i] i i' by blast
  moreover have "sorted (lv ! i)" "sorted (lv' ! i)"
    using g g' i i' unfolding good_levels_def by blast+
  moreover have "distinct (lv ! i)" "distinct (lv' ! i)"
    using distinct_concat_nth d d' i i' by blast+
  ultimately show "lv ! i = lv' ! i" by (intro sorted_distinct_set_unique)
qed

section \<open>Lemmas about the validator\<close>

lemma check_item_Inr: "check_item idx it = Inr n \<Longrightarrow> n = resolved_name it"
  by (auto simp: check_item_def resolved_name_def split: json.splits if_splits option.splits)

lemma check_gates_prefix:
  "check_gates idx gidx gs = Some e \<Longrightarrow> \<exists>rest. e = ''items/'' @ rest"
proof (induction gs arbitrary: gidx)
  case Nil
  then show ?case by simp
next
  case (Cons g gs)
  show ?case
  proof (cases "check_gate idx gidx g")
    case None
    with Cons show ?thesis by simp
  next
    case (Some e')
    with Cons.prems have "e' = e" by simp
    with Some show ?thesis
      by (auto simp: check_gate_def gate_path_def item_path_def split: json.splits if_splits)
  qed
qed

lemma check_item_prefix:
  "check_item idx it = Inl e \<Longrightarrow> \<exists>rest. e = ''items/'' @ rest"
  by (auto simp: check_item_def gates_err_def item_path_def
      split: json.splits if_splits option.splits dest: check_gates_prefix)

lemma check_item_not_dup: "check_item idx it = Inl e \<Longrightarrow> e \<noteq> dup_msg"
  by (auto dest!: check_item_prefix simp: dup_msg_def)

lemma validate_items_Inr:
  "validate_items k its acc = Inr names \<Longrightarrow>
     names = acc @ map resolved_name its \<and>
     (\<forall>i<length its. check_item (k + i) (its ! i) = Inr (resolved_name (its ! i)))"
proof (induction its arbitrary: k acc)
  case Nil
  then show ?case by simp
next
  case (Cons it its)
  from Cons.prems obtain n where n: "check_item k it = Inr n"
    and r: "validate_items (Suc k) its (acc @ [n]) = Inr names"
    by (auto split: sum.splits)
  from check_item_Inr [OF n] have nn: "n = resolved_name it" .
  from Cons.IH [OF r] have a: "names = (acc @ [n]) @ map resolved_name its"
    and b: "\<forall>i<length its. check_item (Suc k + i) (its ! i) = Inr (resolved_name (its ! i))" by blast+
  have "check_item (k + i) ((it # its) ! i) = Inr (resolved_name ((it # its) ! i))"
    if "i < length (it # its)" for i
  proof (cases i)
    case 0
    with n nn show ?thesis by simp
  next
    case (Suc j)
    with that b show ?thesis by simp
  qed
  with a nn show ?case by simp
qed

lemma validate_items_ok:
  "(\<forall>i<length its. \<exists>n. check_item (k + i) (its ! i) = Inr n) \<Longrightarrow>
     validate_items k its acc = Inr (acc @ map resolved_name its)"
proof (induction its arbitrary: k acc)
  case Nil
  then show ?case by simp
next
  case (Cons it its)
  from Cons.prems [rule_format, of 0] obtain n where n: "check_item k it = Inr n" by auto
  from check_item_Inr [OF n] have nn: "n = resolved_name it" .
  have "\<forall>i<length its. \<exists>n. check_item (Suc k + i) (its ! i) = Inr n"
  proof (intro allI impI)
    fix i assume "i < length its"
    with Cons.prems [rule_format, of "Suc i"] show "\<exists>n. check_item (Suc k + i) (its ! i) = Inr n"
      by simp
  qed
  from Cons.IH [OF this, of "acc @ [n]"] n nn show ?case by simp
qed

lemma validate_items_first_error:
  "idx < length its \<Longrightarrow> (\<forall>j<idx. \<exists>n. check_item (k + j) (its ! j) = Inr n) \<Longrightarrow>
     check_item (k + idx) (its ! idx) = Inl e \<Longrightarrow> validate_items k its acc = Inl e"
proof (induction its arbitrary: k acc idx)
  case Nil
  then show ?case by simp
next
  case (Cons it its)
  show ?case
  proof (cases idx)
    case 0
    with Cons.prems show ?thesis by simp
  next
    case (Suc m)
    from Cons.prems(2) [rule_format, of 0] Suc obtain n where n: "check_item k it = Inr n" by auto
    have a: "m < length its" using Cons.prems(1) Suc by simp
    have b: "\<forall>j<m. \<exists>n. check_item (Suc k + j) (its ! j) = Inr n"
    proof (intro allI impI)
      fix j assume "j < m"
      with Cons.prems(2) [rule_format, of "Suc j"] Suc
      show "\<exists>n. check_item (Suc k + j) (its ! j) = Inr n" by simp
    qed
    have c: "check_item (Suc k + m) (its ! m) = Inl e" using Cons.prems(3) Suc by simp
    from Cons.IH [OF a b c, of "acc @ [n]"] n show ?thesis by simp
  qed
qed

lemma validate_items_Inl:
  "validate_items k its acc = Inl e \<Longrightarrow> \<exists>i<length its. check_item (k + i) (its ! i) = Inl e"
proof (induction its arbitrary: k acc)
  case Nil
  then show ?case by simp
next
  case (Cons it its)
  show ?case
  proof (cases "check_item k it")
    case (Inl e')
    with Cons.prems have "e' = e" by simp
    with Inl have "check_item (k + 0) ((it # its) ! 0) = Inl e" by simp
    then show ?thesis by blast
  next
    case (Inr n)
    with Cons.prems have "validate_items (Suc k) its (acc @ [n]) = Inl e" by simp
    from Cons.IH [OF this] obtain i where "i < length its" "check_item (Suc k + i) (its ! i) = Inl e"
      by blast
    then have "Suc i < length (it # its) \<and> check_item (k + Suc i) ((it # its) ! Suc i) = Inl e"
      by simp
    then show ?thesis by blast
  qed
qed

lemma fallback_validate_items:
  assumes "\<not> req_bad d ''target''" and "map_of d ''items'' = Some (JList its)"
  shows "fallback_validate (JDict d) =
     (case validate_items 0 its [] of
        Inl e \<Rightarrow> (False, Some e)
      | Inr item_names \<Rightarrow>
          if distinct item_names then (True, None) else (False, Some dup_msg))"
  using assms by (auto simp: fallback_validate_def card_distinct distinct_card split: sum.splits)

lemmas eval_defs = fallback_validate_def req_bad_def str_bad_def deps_bad_def dep_ok_def
  gates_err_def strip_def is_space_def check_item_def item_path_def str_nat.simps digit_def
  item_name_def the_str_def dup_msg_def resolved_name_def

lemma fallback_first_error:
  assumes "\<not> req_bad d ''target''" and "map_of d ''items'' = Some (JList its)"
    and "idx < length its" and "\<forall>j<idx. \<exists>n. check_item j (its ! j) = Inr n"
    and "check_item idx (its ! idx) = Inl e"
  shows "fallback_validate (JDict d) = (False, Some e)"
proof -
  have "validate_items 0 its [] = Inl e"
    by (rule validate_items_first_error [OF assms(3)]) (use assms(4,5) in simp_all)
  with fallback_validate_items [OF assms(1,2)] show ?thesis by simp
qed

lemma deps_bad_blank:
  assumes "map_of it ''deps'' = Some (JList ds)" and "JStr s \<in> set ds" and "strip s = []"
  shows "deps_bad it"
proof -
  from assms(2,3) have "\<exists>x\<in>set ds. \<not> dep_ok x" by (auto simp: dep_ok_def intro!: bexI [of _ "JStr s"])
  then have "\<not> list_all dep_ok ds" by (simp add: list_all_iff)
  with assms(1) show ?thesis by (simp add: deps_bad_def)
qed

lemma check_item_deps_bad: "deps_bad it \<Longrightarrow> \<exists>e. check_item idx (JDict it) = Inl e"
  by (simp add: check_item_def)

lemma check_item_amended: "check_item idx it = Inr n \<Longrightarrow> n = amended_name it"
  by (auto simp: check_item_def req_bad_def str_bad_def item_name_def the_str_def amended_name_def
      split: json.splits if_splits option.splits)

lemma resolved_name_amended:
  "check_item idx it = Inr n \<Longrightarrow> resolved_name it = amended_name it"
  using check_item_Inr [of idx it n] check_item_amended [of idx it n] by simp

section \<open>Claims about the engine\<close>

text \<open>
  Claim C1 (topological validity). Whenever \<open>levels\<close> returns a level list, every
  dependency edge \<open>u \<rightarrow> v\<close> (item \<open>v\<close> lists \<open>u\<close> in its deps) has \<open>u\<close> in a level of
  strictly smaller index than the level of \<open>v\<close>; each of the two names lies in that level
  only. A successful run already implies that all deps resolve, and unique names are not
  needed.
\<close>

theorem levels_topological_validity:
  assumes "levels items = Inr lv" and "v \<in> set items" and "u \<in> set (deps_of v)"
  shows "\<exists>i j. i < j \<and> j < length lv \<and> u \<in> set (lv ! i) \<and> name_of v \<in> set (lv ! j)
           \<and> level_index lv u = Some i \<and> level_index lv (name_of v) = Some j"
proof -
  from levels_Inr_facts [OF assms(1)] have
    d: "distinct (concat lv)" and c: "set (concat lv) = set (map name_of items)"
    and g: "good_levels (edges items) lv" by blast+
  have e: "(u, name_of v) \<in> set (edges items)" using assms(2,3) unfolding edges_set by blast
  have "name_of v \<in> set (concat lv)" using c assms(2) by simp
  then obtain j where j: "j < length lv" "name_of v \<in> set (lv ! j)"
    unfolding in_concat_nth by blast
  from good_levels_edge [OF g j e] obtain i where i: "i < j" "u \<in> set (lv ! i)" by blast
  from i(1) j(1) have il: "i < length lv" by simp
  from level_index_unique [OF d il i(2)] level_index_unique [OF d j] i j
  show ?thesis by blast
qed

theorem levels_topological_validity_witness:
  "\<exists>i j. i < j \<and> j < length [[''A'', ''C''], [''B'']]
      \<and> ''A'' \<in> set ([[''A'', ''C''], [''B'']] ! i) \<and> ''B'' \<in> set ([[''A'', ''C''], [''B'']] ! j)
      \<and> level_index [[''A'', ''C''], [''B'']] ''A'' = Some i
      \<and> level_index [[''A'', ''C''], [''B'']] ''B'' = Some j"
  using levels_topological_validity [OF levels_ex_items,
      of "\<lparr>name = Some ''B'', repo = ''r'', branch = ''b'', deps = Some [''A'']\<rparr>" "''A''"]
  by (simp add: ex_items_def name_of_def deps_of_def)

text \<open>
  Claim C2 (cycle detection). When every dep resolves to an item's resolved name and the
  dependency relation has a cycle, \<open>levels\<close> raises \<open>CycleError\<close>: the result is the error
  and carries no level list, partial or otherwise. Unique names are not needed.
\<close>

theorem levels_cycle_detected:
  assumes "\<forall>it\<in>set items. set (deps_of it) \<subseteq> set (map name_of items)"
    and "(x, x) \<in> (set (edges items))\<^sup>+"
  shows "levels items = Inl (CycleError ''dependency cycle detected'')"
proof -
  from assms(2) have "\<not> acyclic (set (edges items))" unfolding acyclic_def by blast
  then have "\<not> wf (set (edges items))" using wf_acyclic by blast
  with assms(1) show ?thesis by (intro levels_cycle) (simp add: known_iff)
qed

theorem levels_cycle_detected_witness:
  "levels cyc_items = Inl (CycleError ''dependency cycle detected'')"
proof -
  have e: "set (edges cyc_items) = {(''B'', ''A''), (''A'', ''B'')}"
    by (simp add: edges_def cyc_items_def name_of_def deps_of_def)
  have "(''A'', ''B'') \<in> (set (edges cyc_items))\<^sup>+" "(''B'', ''A'') \<in> (set (edges cyc_items))\<^sup>+"
    unfolding e by blast+
  then have c: "(''A'', ''A'') \<in> (set (edges cyc_items))\<^sup>+" by (rule trancl_trans)
  have k: "\<forall>it\<in>set cyc_items. set (deps_of it) \<subseteq> set (map name_of cyc_items)"
    by (simp add: cyc_items_def name_of_def deps_of_def)
  from levels_cycle_detected [OF k c] show ?thesis .
qed

text \<open>
  Claim C3 (unknown dependency). If some deps entry equals no item's resolved name, the
  item list splits at the first offending item \<open>me\<close> and its deps at the first offending
  entry \<open>x\<close>: every earlier item has only known deps, every earlier entry of \<open>me\<close> is
  known. The graph-building loops already fail at that entry, before the leveling loop
  starts, and \<open>levels\<close> raises the \<open>KeyError\<close> whose message is
  \<open>unknown dep 'x' for item 'n'\<close>, with \<open>x\<close> the missing dep string and \<open>n\<close> the resolved
  name of \<open>me\<close>, each between apostrophes (the character \<open>0x27\<close>).
\<close>

theorem levels_unknown_dependency:
  assumes "it \<in> set items" and "d \<in> set (deps_of it)" and "d \<notin> set (map name_of items)"
  shows "\<exists>pre me post ds1 x ds2.
      items = pre @ me # post \<and> deps_of me = ds1 @ x # ds2
    \<and> (\<forall>p\<in>set pre. set (deps_of p) \<subseteq> set (map name_of items))
    \<and> set ds1 \<subseteq> set (map name_of items) \<and> x \<notin> set (map name_of items)
    \<and> build_graph (set (map name_of items)) items
          (fold (\<lambda>n. AList.update n 0) (map name_of items) [], \<lambda>_. [])
        = Inl (KeyError (''unknown dep '' @ [CHR 0x27] @ x @ [CHR 0x27] @ '' for item '' @ [CHR 0x27] @ name_of me @ [CHR 0x27]))
    \<and> levels items =
        Inl (KeyError (''unknown dep '' @ [CHR 0x27] @ x @ [CHR 0x27] @ '' for item '' @ [CHR 0x27] @ name_of me @ [CHR 0x27]))"
proof -
  let ?N = "set (map name_of items)"
  let ?deg0 = "fold (\<lambda>n. AList.update n (0::int)) (map name_of items) []"
  from assms have "\<exists>it\<in>set items. \<not> set (deps_of it) \<subseteq> ?N" by blast
  from split_list_first_prop [OF this] obtain pre me post where
    i: "items = pre @ me # post" and bad: "\<not> set (deps_of me) \<subseteq> ?N"
    and pre: "\<forall>p\<in>set pre. set (deps_of p) \<subseteq> ?N" by blast
  from bad have "\<exists>x\<in>set (deps_of me). x \<notin> ?N" by blast
  from split_list_first_prop [OF this] obtain ds1 x ds2 where
    d: "deps_of me = ds1 @ x # ds2" and x: "x \<notin> ?N" and ds1: "set ds1 \<subseteq> ?N" by blast
  have f: "find (\<lambda>e. fst e \<notin> ?N) (edges items) = Some (x, name_of me)"
    using find_first_unknown [OF pre ds1 x d, of post] i by simp
  have "map_of ?deg0 v = (if v \<in> ?N then Some 0 else None)" for v
    by (simp add: map_of_init)
  then have keys: "\<forall>it\<in>set items. name_of it \<in> dom (map_of ?deg0)" by (auto simp: dom_def)
  have b: "build_graph ?N items (?deg0, \<lambda>_. []) = Inl (KeyError (unknown_dep_msg x (name_of me)))"
    by (rule build_graph_unknown [OF f keys])
  have b': "build_graph ?N items (?deg0, \<lambda>_. []) =
      Inl (KeyError (''unknown dep '' @ [CHR 0x27] @ x @ [CHR 0x27] @ '' for item '' @ [CHR 0x27] @ name_of me @ [CHR 0x27]))"
    using b by (simp only: unknown_dep_msg_def)
  have l': "levels items =
      Inl (KeyError (''unknown dep '' @ [CHR 0x27] @ x @ [CHR 0x27] @ '' for item '' @ [CHR 0x27] @ name_of me @ [CHR 0x27]))"
    using levels_unknown [OF f] by (simp only: unknown_dep_msg_def)
  from i d pre ds1 x b' l' show ?thesis by blast
qed

theorem levels_unknown_dependency_witness:
  "levels unk_items =
     Inl (KeyError (''unknown dep '' @ [CHR 0x27] @ ''X'' @ [CHR 0x27] @ '' for item '' @ [CHR 0x27] @ ''B'' @ [CHR 0x27]))"
proof -
  let ?b = "\<lparr>name = Some ''B'', repo = ''r'', branch = ''b'', deps = Some [''X'']\<rparr>"
  have "?b \<in> set unk_items" "''X'' \<in> set (deps_of ?b)" "''X'' \<notin> set (map name_of unk_items)"
    by (simp_all add: unk_items_def deps_of_def name_of_def)
  from levels_unknown_dependency [OF this] obtain pre me post ds1 x ds2 where
    i: "unk_items = pre @ me # post" and d: "deps_of me = ds1 @ x # ds2"
    and ds1: "set ds1 \<subseteq> set (map name_of unk_items)" and x: "x \<notin> set (map name_of unk_items)"
    and l: "levels unk_items =
        Inl (KeyError (''unknown dep '' @ [CHR 0x27] @ x @ [CHR 0x27] @ '' for item '' @ [CHR 0x27] @ name_of me @ [CHR 0x27]))"
    by blast
  from i have me: "me = ?b" by (auto simp: unk_items_def Cons_eq_append_conv)
  with d have "ds1 @ x # ds2 = [''X'']" by (simp add: deps_of_def)
  then have "x = ''X''" by (auto simp: append_eq_Cons_conv)
  with l me show ?thesis by (simp add: name_of_def)
qed

text \<open>
  Claim C4 (partition completeness). With unique resolved names, every dep resolving and
  an acyclic dependency relation, \<open>levels\<close> returns a level list whose concatenation is,
  as a multiset, the list of resolved names: no name is missing or repeated, and every
  item's name lies in exactly one level.
\<close>

theorem levels_partition_complete:
  assumes "distinct (map name_of items)"
    and "\<forall>it\<in>set items. set (deps_of it) \<subseteq> set (map name_of items)"
    and "acyclic (set (edges items))"
  shows "\<exists>lv. levels items = Inr lv \<and> mset (concat lv) = mset (map name_of items)
           \<and> (\<forall>it\<in>set items. \<exists>!i. i < length lv \<and> name_of it \<in> set (lv ! i))"
proof -
  have known: "\<forall>e\<in>set (edges items). fst e \<in> set (map name_of items)"
    using assms(2) by (simp add: known_iff)
  have w: "wf (set (edges items))" by (rule finite_acyclic_wf [OF _ assms(3)]) simp
  from levels_total [OF known w] obtain lv where l: "levels items = Inr lv" by blast
  from levels_Inr_facts [OF l] have
    d: "distinct (concat lv)" and c: "set (concat lv) = set (map name_of items)" by blast+
  have m: "mset (concat lv) = mset (map name_of items)"
    using set_eq_iff_mset_eq_distinct [OF d assms(1)] c by simp
  have u: "\<exists>!i. i < length lv \<and> name_of it \<in> set (lv ! i)" if "it \<in> set items" for it
  proof -
    from that c have "name_of it \<in> set (concat lv)" by simp
    then obtain i where i: "i < length lv" "name_of it \<in> set (lv ! i)"
      unfolding in_concat_nth by blast
    show ?thesis
    proof (rule ex1I [of _ i])
      show "i < length lv \<and> name_of it \<in> set (lv ! i)" using i by simp
    next
      fix k assume "k < length lv \<and> name_of it \<in> set (lv ! k)"
      then have "level_index lv (name_of it) = Some k" using level_index_unique [OF d] by blast
      moreover have "level_index lv (name_of it) = Some i" using level_index_unique [OF d i] .
      ultimately show "k = i" by simp
    qed
  qed
  from l m u show ?thesis by blast
qed

theorem levels_partition_complete_witness:
  "\<exists>lv. levels ex_items = Inr lv \<and> mset (concat lv) = mset (map name_of ex_items)"
proof -
  have e: "set (edges ex_items) = {(''A'', ''B'')}"
    by (simp add: edges_def ex_items_def name_of_def deps_of_def)
  have "acyclic ({} :: (string \<times> string) set)" by (rule wf_acyclic) simp
  then have a: "acyclic (set (edges ex_items))" unfolding e by (simp add: acyclic_insert)
  have k: "\<forall>it\<in>set ex_items. set (deps_of it) \<subseteq> set (map name_of ex_items)"
    by (simp add: ex_items_def name_of_def deps_of_def)
  have d: "distinct (map name_of ex_items)" by (simp add: ex_items_def name_of_def)
  from levels_partition_complete [OF d k a] show ?thesis by blast
qed

text \<open>
  Claim C5 (order independence). If \<open>levels\<close> succeeds on an item list, it returns the very
  same level list on every permutation of that list (the same items, as a multiset).
\<close>

theorem levels_order_independent:
  assumes "levels items = Inr lv" and "mset items' = mset items"
  shows "levels items' = Inr lv"
proof -
  from assms(2) have si: "set items' = set items" by (rule mset_eq_setD)
  then have se: "set (edges items') = set (edges items)" by (simp add: edges_set)
  from si have sn: "set (map name_of items') = set (map name_of items)" by simp
  from levels_Inr_facts [OF assms(1)] have
    known: "\<forall>e\<in>set (edges items). fst e \<in> set (map name_of items)"
    and d: "distinct (concat lv)" and c: "set (concat lv) = set (map name_of items)"
    and g: "good_levels (edges items) lv" by blast+
  have "\<forall>e\<in>set (edges items). snd e \<in> set (concat lv)" using edges_snd c by blast
  from good_levels_wf [OF g d this] have w: "wf (set (edges items'))" by (simp add: se)
  have known': "\<forall>e\<in>set (edges items'). fst e \<in> set (map name_of items')"
    using known se sn by simp
  from levels_total [OF known' w] obtain lv' where l': "levels items' = Inr lv'" by blast
  from levels_Inr_facts [OF l'] have
    d': "distinct (concat lv')" and c': "set (concat lv') = set (map name_of items)"
    and g': "good_levels (edges items) lv'"
    using sn good_levels_cong [OF se] by auto
  from good_levels_unique [OF g g' c c' d d'] l' show ?thesis by simp
qed

theorem levels_order_independent_witness:
  "levels (rev ex_items) = Inr [[''A'', ''C''], [''B'']]"
  using levels_order_independent [OF levels_ex_items, of "rev ex_items"] by simp



section \<open>Claims about the validator\<close>

text \<open>
  Claim C7, as amended (duplicate names). The claim as stated takes a present name as the
  resolved name, also when it is the empty string; line 71 falls back to the derived name
  for an empty name, so two items named \<open>""\<close> with different branches are accepted. With
  the resolved name read as the explicit name when it is a non-empty string, and repo, the
  character \<open>@\<close> and branch otherwise: for a document that is an object with a valid target
  and an items array, the validator returns the duplicate-names error exactly when every
  item passes its per-item checks and two items at different positions have the same
  resolved name. So the duplicate check decides only after all per-item checks have passed.
\<close>

theorem fallback_duplicate_names:
  assumes "data = JDict d" and "\<not> req_bad d ''target''"
    and "map_of d ''items'' = Some (JList its)"
  shows "fallback_validate data =
       (False, Some ''items: duplicate item names (explicit or derived)'') \<longleftrightarrow>
     (\<forall>i<length its. \<exists>n. check_item i (its ! i) = Inr n) \<and>
     (\<exists>i j. i < j \<and> j < length its \<and> amended_name (its ! i) = amended_name (its ! j))"
proof -
  note fv = fallback_validate_items [OF assms(2,3), unfolded dup_msg_def]
  show ?thesis
  proof (cases "validate_items 0 its []")
    case (Inl e)
    from validate_items_Inl [OF Inl] obtain i where i: "i < length its" "check_item i (its ! i) = Inl e"
      by auto
    from check_item_not_dup [OF i(2)]
    have "fallback_validate data \<noteq> (False, Some ''items: duplicate item names (explicit or derived)'')"
      using fv Inl assms(1) by (simp add: dup_msg_def)
    moreover have "\<not> (\<forall>i<length its. \<exists>n. check_item i (its ! i) = Inr n)"
      using i by auto
    ultimately show ?thesis by blast
  next
    case (Inr names)
    from validate_items_Inr [OF Inr] have n: "names = map resolved_name its"
      and ok: "\<forall>i<length its. check_item i (its ! i) = Inr (resolved_name (its ! i))" by simp_all
    have am: "resolved_name (its ! i) = amended_name (its ! i)" if "i < length its" for i
      using ok that resolved_name_amended by blast
    have ok': "\<forall>i<length its. \<exists>n. check_item i (its ! i) = Inr n" using ok by blast
    have names: "names = map amended_name its"
      unfolding n by (rule nth_equalityI) (simp_all add: am)
    have dn: "\<not> distinct (map amended_name its) \<longleftrightarrow>
       (\<exists>i j. i < j \<and> j < length its \<and> amended_name (its ! i) = amended_name (its ! j))"
    proof
      assume "\<not> distinct (map amended_name its)"
      then obtain i j where ij: "i < length its" "j < length its" "i \<noteq> j"
        "amended_name (its ! i) = amended_name (its ! j)"
        unfolding distinct_conv_nth by auto
      show "\<exists>i j. i < j \<and> j < length its \<and> amended_name (its ! i) = amended_name (its ! j)"
      proof (cases "i < j")
        case True
        with ij show ?thesis by blast
      next
        case False
        with ij have "j < i" by simp
        with ij show ?thesis by metis
      qed
    next
      assume "\<exists>i j. i < j \<and> j < length its \<and> amended_name (its ! i) = amended_name (its ! j)"
      then obtain i j where ij: "i < j" "j < length its"
        "amended_name (its ! i) = amended_name (its ! j)" by blast
      then have "i < length (map amended_name its)" "j < length (map amended_name its)" "i \<noteq> j"
        "map amended_name its ! i = map amended_name its ! j" by simp_all
      then show "\<not> distinct (map amended_name its)"
        unfolding distinct_conv_nth by blast
    qed
    have "fallback_validate data =
        (False, Some ''items: duplicate item names (explicit or derived)'')
       \<longleftrightarrow> \<not> distinct (map amended_name its)"
      using fv Inr names assms(1) by simp
    with ok' dn show ?thesis by blast
  qed
qed

theorem fallback_duplicate_names_witness:
  "fallback_validate plan_two_items =
     (False, Some ''items: duplicate item names (explicit or derived)'')"
proof -
  let ?a = "JDict [(''repo'', JStr ''org/repo''), (''branch'', JStr ''feat/a''), (''name'', JStr ''A'')]"
  let ?b = "JDict [(''repo'', JStr ''org/repo''), (''branch'', JStr ''feat/b''), (''name'', JStr ''A'')]"
  let ?d = "[(''target'', JStr ''main''), (''items'', JList [?a, ?b])]"
  have t: "\<not> req_bad ?d ''target''" by (simp add: req_bad_def strip_def is_space_def)
  have i: "map_of ?d ''items'' = Some (JList [?a, ?b])" by simp
  have ok: "\<forall>i<length [?a, ?b]. \<exists>n. check_item i ([?a, ?b] ! i) = Inr n"
    by (simp add: less_Suc_eq eval_defs)
  have eq: "\<exists>i j. i < j \<and> j < length [?a, ?b] \<and>
      amended_name ([?a, ?b] ! i) = amended_name ([?a, ?b] ! j)"
    by (intro exI [of _ 0] exI [of _ 1]) (simp add: amended_name_def)
  from fallback_duplicate_names [OF _ t i, of plan_two_items] ok eq
  show ?thesis by (simp add: plan_two_items_def)
qed

theorem fallback_duplicate_names_counterexample:
  "check_item 0 (JDict [(''repo'', JStr ''org/repo''), (''branch'', JStr ''feat/a''), (''name'', JStr [])])
      = Inr ''org/repo@feat/a''
   \<and> check_item 1 (JDict [(''repo'', JStr ''org/repo''), (''branch'', JStr ''feat/b''), (''name'', JStr [])])
      = Inr ''org/repo@feat/b''
   \<and> claimed_name (JDict [(''repo'', JStr ''org/repo''), (''branch'', JStr ''feat/a''), (''name'', JStr [])])
      = claimed_name (JDict [(''repo'', JStr ''org/repo''), (''branch'', JStr ''feat/b''), (''name'', JStr [])])
   \<and> fallback_validate plan_empty_names = (True, None)
   \<and> fallback_validate plan_empty_names \<noteq>
       (False, Some ''items: duplicate item names (explicit or derived)'')"
  by (simp add: plan_empty_names_def claimed_name_def eval_defs)

text \<open>
  Claim C8, as amended (missing branch). The claim as stated fails when the item at
  \<open>idx\<close> also has a bad \<open>repo\<close>, which is checked first. With a valid target, an items array,
  every earlier item passing its checks, and the item at \<open>idx\<close> an object with a valid
  \<open>repo\<close> and a missing, non-string, empty or blank \<open>branch\<close>, the validator returns
  \<open>ok = False\<close> and the error \<open>items/<idx>/branch: required non-empty string\<close>.
\<close>

theorem fallback_missing_branch:
  assumes "data = JDict d" and "\<not> req_bad d ''target''"
    and "map_of d ''items'' = Some (JList its)"
    and "idx < length its" and "\<forall>j<idx. \<exists>n. check_item j (its ! j) = Inr n"
    and "its ! idx = JDict it" and "\<not> req_bad it ''repo''" and "req_bad it ''branch''"
  shows "fallback_validate data =
     (False, Some (''items/'' @ str_nat idx @ ''/branch: required non-empty string''))"
proof -
  have "check_item idx (its ! idx) =
      Inl (''items/'' @ str_nat idx @ ''/branch: required non-empty string'')"
    using assms(6,7,8) by (simp add: check_item_def item_path_def)
  from fallback_first_error [OF assms(2,3,4,5) this] assms(1) show ?thesis by simp
qed

theorem fallback_missing_branch_witness:
  "fallback_validate plan_missing_branch =
     (False, Some ''items/0/branch: required non-empty string'')"
proof -
  let ?it = "[(''repo'', JStr ''org/repo''), (''name'', JStr ''A'')]"
  let ?d = "[(''target'', JStr ''main''), (''items'', JList [JDict ?it])]"
  have t: "\<not> req_bad ?d ''target''" by (simp add: req_bad_def strip_def is_space_def)
  have r: "\<not> req_bad ?it ''repo''" by (simp add: req_bad_def strip_def is_space_def)
  have b: "req_bad ?it ''branch''" by (simp add: req_bad_def)
  from fallback_missing_branch [of plan_missing_branch ?d "[JDict ?it]" 0 ?it, OF _ t _ _ _ _ r b]
  show ?thesis by (simp add: plan_missing_branch_def str_nat.simps digit_def)
qed

theorem fallback_missing_branch_counterexample:
  "map_of [(''name'', JStr ''A'')] ''branch'' = None
   \<and> fallback_validate plan_no_repo_no_branch =
       (False, Some ''items/0/repo: required non-empty string'')
   \<and> fallback_validate plan_no_repo_no_branch \<noteq>
       (False, Some (''items/'' @ str_nat 0 @ ''/branch: required non-empty string''))"
  by (simp add: plan_no_repo_no_branch_def eval_defs)

text \<open>
  Claim C9 (empty name). An item whose \<open>name\<close> is the empty string is named
  \<open>repo@branch\<close> by the engine's \<open>_name_of\<close> and by line 71 of the validator; the
  validator's name check accepts the empty string, and the item passes \<open>check_item\<close> with
  the derived name when its other fields are valid.
\<close>

theorem empty_name_resolves_to_derived:
  assumes "name it = Some []"
    and "map_of d ''name'' = Some (JStr [])"
    and "map_of d ''repo'' = Some (JStr r)" and "map_of d ''branch'' = Some (JStr b)"
  shows "name_of it = repo it @ ''@'' @ branch it
     \<and> item_name d = r @ ''@'' @ b
     \<and> \<not> str_bad d ''name''
     \<and> (strip r \<noteq> [] \<and> strip b \<noteq> [] \<and> \<not> deps_bad d \<and> gates_err idx d = None
          \<longrightarrow> check_item idx (JDict d) = Inr (r @ ''@'' @ b))"
  using assms
  by (simp add: name_of_def item_name_def the_str_def str_bad_def check_item_def req_bad_def)

theorem empty_name_resolves_to_derived_witness:
  "name_of \<lparr>name = Some [], repo = ''org/repo'', branch = ''feat/a'', deps = None\<rparr> = ''org/repo@feat/a''
   \<and> check_item 0 (JDict [(''repo'', JStr ''org/repo''), (''branch'', JStr ''feat/a''), (''name'', JStr [])])
       = Inr ''org/repo@feat/a''"
  using empty_name_resolves_to_derived
    [of "\<lparr>name = Some [], repo = ''org/repo'', branch = ''feat/a'', deps = None\<rparr>"
        "[(''repo'', JStr ''org/repo''), (''branch'', JStr ''feat/a''), (''name'', JStr [])]"
        "''org/repo''" "''feat/a''" 0]
  by (simp add: deps_bad_def gates_err_def strip_def is_space_def)

text \<open>
  Claim C10, as amended (blank dep). A document whose items array holds an item with a
  blank (empty or whitespace-only) string in its deps list is always rejected
  (\<open>ok = False\<close>). The error is \<open>items/<idx>/deps: expected array of strings\<close> when
  nothing checked before fails: the target, the earlier items, and this item's
  \<open>repo\<close>, \<open>branch\<close> and \<open>name\<close>. Otherwise the earlier failure is reported.
\<close>

theorem fallback_blank_dep:
  assumes "data = JDict d" and "map_of d ''items'' = Some (JList its)"
    and "idx < length its" and "its ! idx = JDict it"
    and "map_of it ''deps'' = Some (JList ds)" and "JStr s \<in> set ds" and "strip s = []"
  shows "fst (fallback_validate data) = False
     \<and> (\<not> req_bad d ''target'' \<and> (\<forall>j<idx. \<exists>n. check_item j (its ! j) = Inr n)
          \<and> \<not> req_bad it ''repo'' \<and> \<not> req_bad it ''branch'' \<and> \<not> str_bad it ''name''
        \<longrightarrow> fallback_validate data =
              (False, Some (''items/'' @ str_nat idx @ ''/deps: expected array of strings'')))"
proof
  have db: "deps_bad it" by (rule deps_bad_blank [OF assms(5,6,7)])
  show "fst (fallback_validate data) = False"
  proof (cases "req_bad d ''target''")
    case True
    with assms(1) show ?thesis by (simp add: fallback_validate_def)
  next
    case False
    show ?thesis
    proof (cases "validate_items 0 its []")
      case (Inl e)
      with fallback_validate_items [OF False assms(2)] assms(1) show ?thesis by simp
    next
      case (Inr names)
      from validate_items_Inr [OF Inr] assms(3,4)
      have "check_item idx (JDict it) = Inr (resolved_name (JDict it))" by auto
      with check_item_deps_bad [OF db, of idx] show ?thesis by simp
    qed
  qed
  show "\<not> req_bad d ''target'' \<and> (\<forall>j<idx. \<exists>n. check_item j (its ! j) = Inr n)
          \<and> \<not> req_bad it ''repo'' \<and> \<not> req_bad it ''branch'' \<and> \<not> str_bad it ''name''
        \<longrightarrow> fallback_validate data =
              (False, Some (''items/'' @ str_nat idx @ ''/deps: expected array of strings''))"
  proof
    assume a: "\<not> req_bad d ''target'' \<and> (\<forall>j<idx. \<exists>n. check_item j (its ! j) = Inr n)
          \<and> \<not> req_bad it ''repo'' \<and> \<not> req_bad it ''branch'' \<and> \<not> str_bad it ''name''"
    then have "check_item idx (its ! idx) =
        Inl (''items/'' @ str_nat idx @ ''/deps: expected array of strings'')"
      using assms(4) db by (simp add: check_item_def item_path_def)
    from fallback_first_error [OF _ assms(2,3) _ this] a assms(1)
    show "fallback_validate data =
        (False, Some (''items/'' @ str_nat idx @ ''/deps: expected array of strings''))" by simp
  qed
qed

theorem fallback_blank_dep_witness:
  "fallback_validate plan_blank_dep = (False, Some ''items/0/deps: expected array of strings'')"
proof -
  let ?it = "[(''repo'', JStr ''org/repo''), (''branch'', JStr ''feat/a''),
              (''deps'', JList [JStr ''A'', JStr '' ''])]"
  let ?d = "[(''target'', JStr ''main''), (''items'', JList [JDict ?it])]"
  have s: "strip '' '' = []" by (simp add: strip_def is_space_def)
  have g: "\<not> req_bad ?d ''target'' \<and> (\<forall>j<(0::nat). \<exists>n. check_item j ([JDict ?it] ! j) = Inr n)
          \<and> \<not> req_bad ?it ''repo'' \<and> \<not> req_bad ?it ''branch'' \<and> \<not> str_bad ?it ''name''"
    by (simp add: req_bad_def str_bad_def strip_def is_space_def)
  from fallback_blank_dep [of plan_blank_dep ?d "[JDict ?it]" 0 ?it "[JStr ''A'', JStr '' '']" "'' ''", OF _ _ _ _ _ _ s] g
  show ?thesis by (simp add: plan_blank_dep_def str_nat.simps digit_def)
qed

theorem fallback_blank_dep_counterexample:
  "fallback_validate plan_blank_dep_no_target = (False, Some ''target: required non-empty string'')
   \<and> fallback_validate plan_blank_dep_no_target \<noteq>
       (False, Some (''items/'' @ str_nat 0 @ ''/deps: expected array of strings''))"
  by (simp add: plan_blank_dep_no_target_def eval_defs)

end
